theory Spec2Isabelle
  imports Main "HOL-Library.Sublist"
begin

section \<open>Strings\<close>

text \<open>
  JavaScript strings are modelled as \<^typ>\<open>string\<close>. Every pattern of server.js that is
  modelled here is made of ASCII literals and of character classes that contain either
  every non-ASCII character or none of them, so a character outside ASCII is carried
  through unchanged (as its bytes). A value that is \<^verbatim>\<open>null\<close> or \<^verbatim>\<open>undefined\<close> where the
  source tests it is \<^term>\<open>None\<close>.
\<close>

text \<open>\<^verbatim>\<open>s.split(d)\<close> for a one-character separator: never empty, \<^verbatim>\<open>''.split(d)\<close> is \<^verbatim>\<open>['']\<close>.\<close>

fun split_on :: "char \<Rightarrow> string \<Rightarrow> string list" where
  "split_on d [] = [[]]"
| "split_on d (c # cs) =
     (if c = d then [] # split_on d cs
      else (case split_on d cs of p # ps \<Rightarrow> (c # p) # ps | [] \<Rightarrow> [[c]]))"

text \<open>\<^verbatim>\<open>parts.join(d)\<close>.\<close>

fun join_with :: "char \<Rightarrow> string list \<Rightarrow> string" where
  "join_with d [] = []"
| "join_with d [p] = p"
| "join_with d (p # q # ps) = p @ d # join_with d (q # ps)"

text \<open>\<^verbatim>\<open>s.includes(sub)\<close>.\<close>

fun includes_str :: "string \<Rightarrow> string \<Rightarrow> bool" where
  "includes_str [] sub = (sub = [])"
| "includes_str (c # cs) sub = (prefix sub (c # cs) \<or> includes_str cs sub)"

section \<open>Regular expressions of the source\<close>

text \<open>
  \<^verbatim>\<open>s.replace(/re/g, r)\<close>: the string is scanned from the left; where the pattern matches, the
  match is replaced and the scan goes on behind it, elsewhere one character is copied.
  A matcher is given the rest of the string and answers with the replacement and the
  number of characters that the match has after its first one. Every pattern that the
  source replaces globally matches at least one character.
\<close>

fun gsub :: "('a list \<Rightarrow> ('a list \<times> nat) option) \<Rightarrow> 'a list \<Rightarrow> 'a list" where
  "gsub m [] = []"
| "gsub m (c # t) =
     (case m (c # t) of
        None \<Rightarrow> c # gsub m t
      | Some (r, n) \<Rightarrow> r @ gsub m (drop n t))"

text \<open>
  The \<^verbatim>\<open>i\<close> flag: two characters match when they are equal after ASCII case folding. The
  patterns have ASCII letters only, for which the canonicalisation of ECMAScript is this.
\<close>

definition foldCase :: "char \<Rightarrow> nat" where
  "foldCase c = (let n = of_char c in if 65 \<le> n \<and> n \<le> 90 then n + 32 else n)"

fun ciPrefix :: "string \<Rightarrow> string \<Rightarrow> bool" where
  "ciPrefix [] s = True"
| "ciPrefix (p # ps) [] = False"
| "ciPrefix (p # ps) (c # cs) = (if foldCase p = foldCase c then ciPrefix ps cs else False)"

text \<open>A literal pattern, \<^verbatim>\<open>/pat/g\<close> and \<^verbatim>\<open>/pat/gi\<close>.\<close>

definition lit :: "string \<Rightarrow> string \<Rightarrow> string \<Rightarrow> (string \<times> nat) option" where
  "lit pat rep s = (if prefix pat s then Some (rep, length pat - 1) else None)"

definition lit_i :: "string \<Rightarrow> string \<Rightarrow> string \<Rightarrow> (string \<times> nat) option" where
  "lit_i pat rep s =
     (if ciPrefix pat s then Some (rep, length pat - 1) else None)"

definition dquote :: char where "dquote = CHR 0x22"
definition squote :: char where "squote = CHR 0x27"
definition bslash :: char where "bslash = CHR 0x5C"

definition isDigit :: "char \<Rightarrow> bool" where
  "isDigit c \<longleftrightarrow> 48 \<le> (of_char c :: nat) \<and> (of_char c :: nat) \<le> 57"

definition isLower :: "char \<Rightarrow> bool" where
  "isLower c \<longleftrightarrow> 97 \<le> (of_char c :: nat) \<and> (of_char c :: nat) \<le> 122"

text \<open>\<^verbatim>\<open>[0-9a-f]\<close> under the \<^verbatim>\<open>i\<close> flag.\<close>

definition isHexDigit :: "char \<Rightarrow> bool" where
  "isHexDigit c \<longleftrightarrow> isDigit c \<or> 97 \<le> foldCase c \<and> foldCase c \<le> 102"

section \<open>decodeUrlEntities (server.js, lines 432 to 453)\<close>

text \<open>The nine replacements of one pass, in the order of the source, all with \<^verbatim>\<open>/gi\<close>.\<close>

definition urlEntities :: "(string \<times> string) list" where
  "urlEntities =
     [(''&amp;'', ''&''), (''&lt;'', ''<''), (''&gt;'', ''>''), (''&quot;'', [dquote]),
      (''&#x27;'', [squote]), (''&#x2F;'', ''/''), (''&#x3D;'', ''=''), (''&#39;'', [squote]),
      (''&#x2F;'', ''/'')]"

definition decodePass :: "string \<Rightarrow> string" where
  "decodePass s = fold (\<lambda>(pat, rep). gsub (lit_i pat rep)) urlEntities s"

text \<open>
  \<^verbatim>\<open>while (decoded !== previous) { previous = decoded; decoded = pass(decoded) }\<close>.
  The source has no bound on the number of passes.
\<close>

function decodeLoop :: "string \<Rightarrow> string \<Rightarrow> string" where
  "decodeLoop decoded previous =
     (if decoded \<noteq> previous then decodeLoop (decodePass decoded) decoded else decoded)"
  by pat_completeness auto

definition decodeUrlEntities :: "string \<Rightarrow> string" where
  "decodeUrlEntities url = (if url = [] then url else decodeLoop url [])"

section \<open>decodeHtmlEntities (server.js, lines 456 to 519)\<close>

definition digitVal :: "char \<Rightarrow> nat" where
  "digitVal c = (if isDigit c then of_char c - 48 else foldCase c - 87)"

text \<open>
  \<^verbatim>\<open>parseInt(digits, base)\<close> on a string of digits of that base. JavaScript rounds the value
  to a double; the model is exact. The two are the same number up to \<open>2^53\<close>; beyond it
  they differ, and no statement below is about such a string of digits other than through
  a comparison that rounding does not change.
\<close>

definition parseInt :: "nat \<Rightarrow> string \<Rightarrow> nat" where
  "parseInt base ds = foldl (\<lambda>a c. a * base + digitVal c) 0 ds"

text \<open>The bytes of a code point (UTF-8).\<close>

definition utf8 :: "nat \<Rightarrow> string" where
  "utf8 n =
     (if n < 128 then [char_of n]
      else if n < 2048 then [char_of (192 + n div 64), char_of (128 + n mod 64)]
      else if n < 65536 then
        [char_of (224 + n div 4096), char_of (128 + n div 64 mod 64), char_of (128 + n mod 64)]
      else
        [char_of (240 + n div 262144), char_of (128 + n div 4096 mod 64),
         char_of (128 + n div 64 mod 64), char_of (128 + n mod 64)])"

text \<open>
  \<^verbatim>\<open>try { String.fromCodePoint(n) } catch (e) { String.fromCharCode(n) }\<close>: above
  \<open>0x10FFFF\<close> the first throws RangeError and the second takes \<open>n\<close> modulo \<open>2^16\<close>.
  The result is given as bytes, each code point by itself. For a number in the range of the
  surrogates (\<open>0xD800\<close> to \<open>0xDFFF\<close>) this is not the string of JavaScript, where a high
  and a low surrogate side by side are one character; no statement below is about such
  an entity.
\<close>

definition fromCodePoint :: "nat \<Rightarrow> string" where
  "fromCodePoint n = (if n \<le> 1114111 then utf8 n else utf8 (n mod 65536))"

text \<open>
  \<^verbatim>\<open>/pre(digits+);/\<close> replaced by the character of that number; \<open>ci\<close> is the \<^verbatim>\<open>i\<close> flag.
  The digits are taken greedily; a shorter run of digits cannot be followed by \<^verbatim>\<open>;\<close>.
\<close>

definition numEntity ::
  "bool \<Rightarrow> string \<Rightarrow> (char \<Rightarrow> bool) \<Rightarrow> nat \<Rightarrow> string \<Rightarrow> (string \<times> nat) option" where
  "numEntity ci pre dig base s =
     (if (if ci then ciPrefix pre s else prefix pre s) then
        (let rest = drop (length pre) s; ds = takeWhile dig rest in
         case dropWhile dig rest of
           [] \<Rightarrow> None
         | c # _ \<Rightarrow>
             if ds \<noteq> [] \<and> c = CHR '';'' then
               Some (fromCodePoint (parseInt base ds), length pre + length ds)
             else None)
      else None)"

definition decodeHtmlEntities :: "string \<Rightarrow> string" where
  "decodeHtmlEntities text =
     (if text = [] then []
      else
        (gsub (lit [bslash, bslash] [bslash])
        (gsub (lit [bslash, dquote] [dquote])
        (gsub (lit [bslash, CHR ''t''] [CHR 0x09])
        (gsub (lit [bslash, CHR ''r''] [CHR 0x0D])
        (gsub (lit [bslash, CHR ''n''] [CHR 0x0A])
        (gsub (numEntity True ''&#x'' isHexDigit 16)
        (gsub (numEntity False ''&#'' isDigit 10)
        (gsub (lit ''&apos;'' [squote])
        (gsub (lit ''&gt;'' ''>'')
        (gsub (lit ''&lt;'' ''<'')
        (gsub (lit ''&amp;'' ''&'')
        (gsub (lit ''&quot;'' [dquote])
        (gsub (lit ''&amp;gt;'' ''>'')
        (gsub (lit ''&amp;lt;'' ''<'')
        (gsub (lit ''&amp;apos;'' [squote])
        (gsub (lit ''&amp;quot;'' [dquote])
        (gsub (numEntity False ''&amp;#'' isDigit 10)
        (gsub (numEntity True ''&amp;#x'' isHexDigit 16) text)))))))))))))))))))"

section \<open>Removing size restrictions from an image URL\<close>

text \<open>
  The block of thirteen replacements that the handler (lines 232 to 250),
  \<^verbatim>\<open>extractFromRequireData\<close>, \<^verbatim>\<open>parseJsonLd\<close> (lines 623 to 637), \<^verbatim>\<open>parseSharedData\<close> and
  \<^verbatim>\<open>parseMetaTags\<close> each apply to \<^verbatim>\<open>mediaUrl\<close> when it is an image URL and not empty.
\<close>

definition isSep :: "char \<Rightarrow> bool" where
  "isSep c \<longleftrightarrow> c = CHR ''?'' \<or> c = CHR ''&''"

text \<open>\<^verbatim>\<open>/[?&]key[^&]*/g\<close> replaced by the empty string; \<open>key\<close> ends with \<^verbatim>\<open>=\<close>.\<close>

definition paramMatch :: "string \<Rightarrow> string \<Rightarrow> (string \<times> nat) option" where
  "paramMatch key s =
     (case s of
        [] \<Rightarrow> None
      | c # t \<Rightarrow>
          if isSep c \<and> prefix key t then
            Some ([], length key + length (takeWhile (\<lambda>x. x \<noteq> CHR ''&'') (drop (length key) t)))
          else None)"

definition sizeParams :: "string list" where
  "sizeParams =
     [''stp='', ''_nc_cat='', ''ccb='', ''_nc_sid='', ''efg='', ''_nc_ohc='', ''_nc_oc='',
      ''_nc_zt='', ''_nc_ht='', ''_nc_gid='']"

text \<open>
  A pattern as a sequence of pieces, each mapping the input to what is left behind the
  piece. Classes are taken greedily and never given back: in the pattern below each class
  is followed by a literal character outside the class, so backtracking finds nothing
  that the greedy run does not.
\<close>

type_synonym rx = "string \<Rightarrow> string option"

definition rxLit :: "string \<Rightarrow> rx" where
  "rxLit l s = (if prefix l s then Some (drop (length l) s) else None)"

definition rxPlus :: "(char \<Rightarrow> bool) \<Rightarrow> rx" where
  "rxPlus P s = (if takeWhile P s = [] then None else Some (dropWhile P s))"

definition rxOpt :: "(char \<Rightarrow> bool) \<Rightarrow> rx" where
  "rxOpt P s = (case s of [] \<Rightarrow> Some s | c # t \<Rightarrow> if P c then Some t else Some s)"

definition rxStar :: "(char \<Rightarrow> bool) \<Rightarrow> rx" where
  "rxStar P s = Some (dropWhile P s)"

fun rxSeq :: "rx list \<Rightarrow> rx" where
  "rxSeq [] s = Some s"
| "rxSeq (p # ps) s = (case p s of None \<Rightarrow> None | Some r \<Rightarrow> rxSeq ps r)"

text \<open>\<^verbatim>\<open>/\/s\d+x\d+[a-z]?_[a-z]+-jpg[^?&]*/g\<close> replaced by the empty string.\<close>

definition sizeSegment :: rx where
  "sizeSegment =
     rxSeq [rxLit ''/s'', rxPlus isDigit, rxLit ''x'', rxPlus isDigit, rxOpt isLower,
            rxLit ''_'', rxPlus isLower, rxLit ''-jpg'', rxStar (\<lambda>c. \<not> isSep c)]"

definition pathMatch :: "string \<Rightarrow> (string \<times> nat) option" where
  "pathMatch s =
     (case sizeSegment s of
        None \<Rightarrow> None
      | Some rest \<Rightarrow> Some ([], length s - length rest - 1))"

text \<open>
  \<^verbatim>\<open>replace(/[?&]+/g, (match, offset) => offset === 0 ? '?' : '&')\<close>; the flag says that the
  scan is at offset 0.
\<close>

function normSeps :: "bool \<Rightarrow> string \<Rightarrow> string" where
  "normSeps first [] = []"
| "normSeps first (c # t) =
     (if isSep c then (if first then CHR ''?'' else CHR ''&'') # normSeps False (dropWhile isSep t)
      else c # normSeps False t)"
  by pat_completeness auto
termination
  by (relation "measure (\<lambda>(first, s). length s)")
     (auto simp: less_Suc_eq_le length_dropWhile_le)

text \<open>\<^verbatim>\<open>replace(/\?$/, '')\<close>.\<close>

definition dropTrailingQuestion :: "string \<Rightarrow> string" where
  "dropTrailingQuestion s = (if s \<noteq> [] \<and> last s = CHR ''?'' then butlast s else s)"

definition stripSizeConstraints :: "string \<Rightarrow> string" where
  "stripSizeConstraints mediaUrl =
     (if mediaUrl = [] then mediaUrl
      else dropTrailingQuestion (normSeps True (gsub pathMatch
             (fold (\<lambda>key. gsub (paramMatch key)) sizeParams mediaUrl))))"

section \<open>cleanUrl (server.js, lines 993 to 1004)\<close>

text \<open>The filter predicate of \<^verbatim>\<open>cleanUrl\<close>: the parameters that are kept.\<close>

definition keepParam :: "string \<Rightarrow> bool" where
  "keepParam param \<longleftrightarrow> \<not> prefix ''bytestart'' param \<and> \<not> prefix ''byteend'' param"

text \<open>
  \<^verbatim>\<open>const [baseUrl, queryString] = url.split('?')\<close> keeps the first two parts and drops the
  others; \<^verbatim>\<open>queryString\<close> is \<^verbatim>\<open>undefined\<close> when there is one part only.
\<close>

definition cleanUrl :: "string option \<Rightarrow> string option" where
  "cleanUrl url =
     (case url of
        None \<Rightarrow> None
      | Some u \<Rightarrow>
          if u = [] then Some u
          else
            (case split_on CHR ''?'' u of
               baseUrl # queryString # _ \<Rightarrow>
                 if queryString = [] then Some u
                 else Some (baseUrl @ ''?'' @
                        join_with CHR ''&'' (filter keepParam (split_on CHR ''&'' queryString)))
             | _ \<Rightarrow> Some u))"

section \<open>Choosing among display resources\<close>

text \<open>
  An entry of \<^verbatim>\<open>display_resources\<close> as \<^verbatim>\<open>JSON.parse\<close> gives it: each field may be missing.
  The numbers of JavaScript are doubles. The widths and heights here are integers and
  their product is the exact one, which is the product of the doubles as long as its
  magnitude is at most \<open>2^53\<close>: then both factors and the product are doubles, and a
  product with a factor 0 is never computed by the loops or is not greater than the
  maximum in either arithmetic. Beyond this bound the code compares rounded products;
  the statements about the loops are made under the bound.
\<close>

record displayResource =
  src :: "string option"
  config_width :: "int option"
  config_height :: "int option"

text \<open>What \<^verbatim>\<open>if (x)\<close> and \<^verbatim>\<open>x && y\<close> test of a string and of a number.\<close>

definition truthyStr :: "string option \<Rightarrow> bool" where
  "truthyStr x = (case x of None \<Rightarrow> False | Some s \<Rightarrow> s \<noteq> [])"

definition truthyNum :: "int option \<Rightarrow> bool" where
  "truthyNum x = (case x of None \<Rightarrow> False | Some n \<Rightarrow> n \<noteq> 0)"

text \<open>
  The loop of \<^verbatim>\<open>extractFromRequireData\<close> (lines 537 to 548) and of \<^verbatim>\<open>parseSharedData\<close>
  (lines 668 to 679), with its two variables.
\<close>

fun bestResourceLoop ::
  "displayResource list \<Rightarrow> int \<Rightarrow> displayResource option \<Rightarrow> displayResource option" where
  "bestResourceLoop [] maxResolution bestResource = bestResource"
| "bestResourceLoop (resource # rest) maxResolution bestResource =
     (if truthyStr (src resource) \<and> truthyNum (config_width resource)
         \<and> truthyNum (config_height resource) then
        (case (config_width resource, config_height resource) of
           (Some w, Some h) \<Rightarrow>
             if w * h > maxResolution then bestResourceLoop rest (w * h) (Some resource)
             else bestResourceLoop rest maxResolution bestResource
         | _ \<Rightarrow> bestResourceLoop rest maxResolution bestResource)
      else bestResourceLoop rest maxResolution bestResource)"

text \<open>
  Lines 535 to 558: the \<^verbatim>\<open>src\<close> that replaces \<^verbatim>\<open>mediaUrl\<close> and \<^verbatim>\<open>thumbnailUrl\<close> of an image
  post, \<^term>\<open>None\<close> when both are left as they were. With no best resource the last
  entry is taken (the comment of the source: usually highest quality).
\<close>

definition pickDisplayResource :: "displayResource list \<Rightarrow> string option" where
  "pickDisplayResource display_resources =
     (if display_resources = [] then None
      else
        (case bestResourceLoop display_resources 0 None of
           Some bestResource \<Rightarrow> src bestResource
         | None \<Rightarrow>
             if truthyStr (src (last display_resources)) then src (last display_resources)
             else None))"

text \<open>
  The handler (lines 158 to 172) runs the same loop over the matches of
  \<^verbatim>\<open>{"src":"([^"]+)","config_width":(\d+),"config_height":(\d+)}\<close>: the three groups of
  each match, the numbers read by \<^verbatim>\<open>parseInt\<close> (natural numbers, with the exact product,
  which is that of JavaScript as long as it is at most \<open>2^53\<close>).
\<close>

fun bestUrlLoop :: "(string \<times> nat \<times> nat) list \<Rightarrow> nat \<Rightarrow> string option \<Rightarrow> string option" where
  "bestUrlLoop [] maxResolution bestUrl = bestUrl"
| "bestUrlLoop ((url, width, height) # rest) maxResolution bestUrl =
     (if width * height > maxResolution then bestUrlLoop rest (width * height) (Some url)
      else bestUrlLoop rest maxResolution bestUrl)"

text \<open>
  The area of a candidate in the words of the specification: width times height, and 0
  when a dimension is missing; and the bound \<open>2^53\<close> up to which every integer is a double.
\<close>

definition safeArea :: int where
  "safeArea = 9007199254740992"

definition area :: "displayResource \<Rightarrow> int" where
  "area r =
     (case (config_width r, config_height r) of (Some w, Some h) \<Rightarrow> w * h | _ \<Rightarrow> 0)"

text \<open>
  The selector as the specification words it: the candidate of maximum area, the first
  one in input order among equals.
\<close>

fun spec_selectMaxArea :: "displayResource list \<Rightarrow> displayResource option" where
  "spec_selectMaxArea [] = None"
| "spec_selectMaxArea (r # rs) =
     (case spec_selectMaxArea rs of
        None \<Rightarrow> Some r
      | Some b \<Rightarrow> if area r < area b then Some b else Some r)"

section \<open>The media record and the inline-field scan (server.js, lines 125 to 269)\<close>

datatype mediaKind = Image | Video

text \<open>
  The object that every strategy builds. A \<^verbatim>\<open>mediaUrl\<close> or \<^verbatim>\<open>thumbnailUrl\<close> that is \<^verbatim>\<open>null\<close>,
  \<^verbatim>\<open>undefined\<close> or empty is the empty string: the source only tests them for truth.
\<close>

record mediaRecord =
  mediaUrl :: string
  thumbnailUrl :: string
  caption :: string
  author :: string
  mediaType :: mediaKind
  timestamp :: "string option"

datatype step =
  Launch | NewPage | SetViewport | SetUserAgent | SetRequestInterception | Goto | Evaluate

datatype error =
  RangeError | StepFailed step | CloseFailed | DownloadFailed string | FfmpegFailed

text \<open>
  \<^verbatim>\<open>str.match(re)\<close> without the \<^verbatim>\<open>g\<close> flag: the leftmost position where the pattern matches.
\<close>

fun rsearch :: "(string \<Rightarrow> 'a option) \<Rightarrow> string \<Rightarrow> 'a option" where
  "rsearch m [] = m []"
| "rsearch m (c # t) = (case m (c # t) of Some x \<Rightarrow> Some x | None \<Rightarrow> rsearch m t)"

text \<open>
  \<^verbatim>\<open>/pre([^"]+)"/\<close> at the start of the input, giving the group. The run of characters other
  than the quote is maximal: a shorter one is not followed by a quote.
\<close>

definition capQuoted :: "string \<Rightarrow> string \<Rightarrow> string option" where
  "capQuoted pre s =
     (if prefix pre s then
        (let rest = drop (length pre) s; cap = takeWhile (\<lambda>c. c \<noteq> dquote) rest in
         case dropWhile (\<lambda>c. c \<noteq> dquote) rest of
           [] \<Rightarrow> None
         | _ # _ \<Rightarrow> if cap = [] then None else Some cap)
      else None)"

text \<open>\<^verbatim>\<open>/pre(\d+)/\<close> at the start of the input.\<close>

definition capDigits :: "string \<Rightarrow> string \<Rightarrow> string option" where
  "capDigits pre s =
     (if prefix pre s then
        (let ds = takeWhile isDigit (drop (length pre) s) in if ds = [] then None else Some ds)
      else None)"

text \<open>The text \<^verbatim>\<open>"key":\<close>.\<close>

definition jsonKey :: "string \<Rightarrow> string" where
  "jsonKey k = dquote # k @ [dquote, CHR '':'']"

text \<open>
  Lines 127 to 137: \<^verbatim>\<open>video_url\<close>, else \<^verbatim>\<open>playback_url\<close>, else the first \<^verbatim>\<open>url\<close> of
  \<^verbatim>\<open>video_versions\<close>.
\<close>

definition videoUrlMatch :: "string \<Rightarrow> string option" where
  "videoUrlMatch html =
     (case rsearch (capQuoted (jsonKey ''video_url'' @ [dquote])) html of
        Some v \<Rightarrow> Some v
      | None \<Rightarrow>
          (case rsearch (capQuoted (jsonKey ''playback_url'' @ [dquote])) html of
             Some v \<Rightarrow> Some v
           | None \<Rightarrow>
               rsearch (capQuoted (jsonKey ''video_versions'' @ ''[{'' @ jsonKey ''url'' @ [dquote]))
                 html))"

definition displayUrlMatch :: "string \<Rightarrow> string option" where
  "displayUrlMatch html = rsearch (capQuoted (jsonKey ''display_url'' @ [dquote])) html"

definition thumbnailMatch :: "string \<Rightarrow> string option" where
  "thumbnailMatch html = rsearch (capQuoted (jsonKey ''thumbnail_src'' @ [dquote])) html"

definition bestImageMatch :: "string \<Rightarrow> string option" where
  "bestImageMatch html = rsearch (capQuoted (jsonKey ''best_image_url'' @ [dquote])) html"

definition captionMatch :: "string \<Rightarrow> string option" where
  "captionMatch html =
     rsearch (capQuoted (jsonKey ''edge_media_to_caption'' @ ''{'' @ jsonKey ''edges'' @ ''[{''
                @ jsonKey ''node'' @ ''{'' @ jsonKey ''text'' @ [dquote])) html"

text \<open>\<^verbatim>\<open>/"owner":\{"id":"[^"]+","username":"([^"]+)"/\<close>.\<close>

definition usernameAt :: "string \<Rightarrow> string option" where
  "usernameAt s =
     (let pre = jsonKey ''owner'' @ ''{'' @ jsonKey ''id'' @ [dquote] in
      if prefix pre s then
        (let rest = drop (length pre) s in
         if takeWhile (\<lambda>c. c \<noteq> dquote) rest = [] then None
         else capQuoted (dquote # '','' @ jsonKey ''username'' @ [dquote])
                (dropWhile (\<lambda>c. c \<noteq> dquote) rest))
      else None)"

definition usernameMatch :: "string \<Rightarrow> string option" where
  "usernameMatch html = rsearch usernameAt html"

definition timestampMatch :: "string \<Rightarrow> string option" where
  "timestampMatch html = rsearch (capDigits (jsonKey ''taken_at_timestamp'')) html"

text \<open>
  \<^verbatim>\<open>.replace(/\\u0026/g, '&').replace(/\\\//g, '/').replace(/\\u003d/g, '=')\<close>, and the two
  replacements that the thumbnail gets.
\<close>

definition unescapeThumb :: "string \<Rightarrow> string" where
  "unescapeThumb s = gsub (lit [bslash, CHR ''/''] ''/'') (gsub (lit (bslash # ''u0026'') ''&'') s)"

definition unescapeUrl :: "string \<Rightarrow> string" where
  "unescapeUrl s = gsub (lit (bslash # ''u003d'') ''='') (unescapeThumb s)"

text \<open>\<^verbatim>\<open>a || b\<close> where \<open>a\<close> is a group of a match that may have failed.\<close>

definition jsOr :: "string option \<Rightarrow> string \<Rightarrow> string" where
  "jsOr a b = (case a of None \<Rightarrow> b | Some x \<Rightarrow> if x = [] then b else x)"

text \<open>
  Lines 151 to 201. For each of the three patterns of \<^verbatim>\<open>display_resources\<close> that matches the
  page, the input has the matches of the entry pattern (see \<^const>\<open>bestUrlLoop\<close>) and the
  matches of \<^verbatim>\<open>"src":"([^"]+)"\<close> inside the bracket. The loop leaves at the first pattern
  that gives a URL.
\<close>

fun scanDisplayResources :: "((string \<times> nat \<times> nat) list \<times> string list) list \<Rightarrow> string option" where
  "scanDisplayResources [] = None"
| "scanDisplayResources ((resourceMatches, resourceUrls) # others) =
     (if resourceMatches \<noteq> [] then
        (case bestUrlLoop resourceMatches 0 None of
           Some bestUrl \<Rightarrow>
             if bestUrl \<noteq> [] then Some (decodeUrlEntities (unescapeUrl bestUrl))
             else scanDisplayResources others
         | None \<Rightarrow> scanDisplayResources others)
      else if resourceUrls \<noteq> [] then Some (decodeUrlEntities (unescapeUrl (last resourceUrls)))
      else scanDisplayResources others)"

text \<open>Lines 143 to 214: \<^verbatim>\<open>highQualityImageUrl\<close>.\<close>

definition highQualityImageUrl ::
  "((string \<times> nat \<times> nat) list \<times> string list) list \<Rightarrow> string \<Rightarrow> string option" where
  "highQualityImageUrl resources html =
     (let hq = scanDisplayResources resources in
      if truthyStr hq then hq
      else map_option (\<lambda>b. decodeUrlEntities (unescapeUrl b)) (bestImageMatch html))"

text \<open>
  \<^verbatim>\<open>new Date(ms).toISOString()\<close> throws RangeError when the time value is not valid, that is
  beyond \<open>8.64e15\<close> milliseconds (rounding to a double does not move a number across this
  bound). The text of a valid date is a parameter.
\<close>

definition toISOString :: "(nat \<Rightarrow> string) \<Rightarrow> nat \<Rightarrow> error + string" where
  "toISOString fmt ms = (if ms \<le> 8640000000000000 then Inr (fmt ms) else Inl RangeError)"

text \<open>
  Lines 216 to 269: the value of \<^verbatim>\<open>postData\<close> after the first method, or the exception that
  leaves the handler.
\<close>

definition inlineFieldScan ::
  "(nat \<Rightarrow> string) \<Rightarrow> ((string \<times> nat \<times> nat) list \<times> string list) list \<Rightarrow> string \<Rightarrow>
     error + mediaRecord option" where
  "inlineFieldScan fmt resources html =
     (let video = videoUrlMatch html; display = displayUrlMatch html;
          hq = highQualityImageUrl resources html
      in
      if video = None \<and> display = None then Inr None
      else
        (let url0 = decodeUrlEntities (unescapeUrl (jsOr video (jsOr display [])));
             url1 = (if video = None \<and> truthyStr hq then decodeUrlEntities (jsOr hq []) else url0);
             url2 = (if video = None then stripSizeConstraints url1 else url1);
             thumb = decodeUrlEntities
                       (unescapeThumb (jsOr display (jsOr (thumbnailMatch html) url2)))
         in
         if url2 = [] then Inr None
         else
           (case (case timestampMatch html of
                    None \<Rightarrow> Inr None
                  | Some ds \<Rightarrow>
                      (case toISOString fmt (parseInt 10 ds * 1000) of
                         Inl e \<Rightarrow> Inl e
                       | Inr isoText \<Rightarrow> Inr (Some isoText))) of
              Inl e \<Rightarrow> Inl e
            | Inr ts \<Rightarrow>
                Inr (Some \<lparr>mediaUrl = url2, thumbnailUrl = thumb,
                           caption = decodeHtmlEntities (jsOr (captionMatch html) []),
                           author = jsOr (usernameMatch html) ''Unknown'',
                           mediaType = (if video = None then Image else Video),
                           timestamp = ts\<rparr>))))"

section \<open>The script-tag scan and the later strategies (lines 271 to 340)\<close>

text \<open>What \<^verbatim>\<open>postData?.mediaUrl\<close> tests.\<close>

definition hasMedia :: "mediaRecord option \<Rightarrow> bool" where
  "hasMedia postData = (case postData of None \<Rightarrow> False | Some r \<Rightarrow> mediaUrl r \<noteq> [])"

text \<open>
  \<^verbatim>\<open>str.matchAll(re)\<close>: the matches from left to right, each search starting behind the
  match before. The matcher gives the group and the number of characters of the match
  after its first one.
\<close>

fun matchAll :: "('a list \<Rightarrow> ('b \<times> nat) option) \<Rightarrow> 'a list \<Rightarrow> 'b list" where
  "matchAll m [] = []"
| "matchAll m (c # t) =
     (case m (c # t) of
        None \<Rightarrow> matchAll m t
      | Some (cap, n) \<Rightarrow> cap # matchAll m (drop n t))"

text \<open>\<^verbatim>\<open>(.*?)lit\<close> under the \<^verbatim>\<open>s\<close> flag: the text before the first \<open>lit\<close>, and what is behind it.\<close>

fun findEnd :: "string \<Rightarrow> string \<Rightarrow> (string \<times> string) option" where
  "findEnd l [] = (if l = [] then Some ([], []) else None)"
| "findEnd l (c # t) =
     (if prefix l (c # t) then Some ([], drop (length l) (c # t))
      else map_option (\<lambda>(before, behind). (c # before, behind)) (findEnd l t))"

text \<open>\<^verbatim>\<open>/<script[^>]*>(.*?)<\/script>/gs\<close>.\<close>

definition scriptAt :: "string \<Rightarrow> (string \<times> nat) option" where
  "scriptAt s =
     (if prefix ''<script'' s then
        (case dropWhile (\<lambda>c. c \<noteq> CHR ''>'') (drop (length ''<script'') s) of
           [] \<Rightarrow> None
         | _ # body \<Rightarrow>
             (case findEnd ''</script>'' body of
                None \<Rightarrow> None
              | Some (content, behind) \<Rightarrow> Some (content, length s - length behind - 1)))
      else None)"

definition scriptBodies :: "string \<Rightarrow> string list" where
  "scriptBodies html = matchAll scriptAt html"

definition notBrace :: "char \<Rightarrow> bool" where
  "notBrace c \<longleftrightarrow> c \<noteq> CHR ''{'' \<and> c \<noteq> CHR ''}''"

text \<open>
  \<^verbatim>\<open>/(\{[^{}]*(?:\{[^{}]*\}[^{}]*)*\})/g\<close>. Behind the first run of \<^verbatim>\<open>[^{}]*\<close> the input is at
  a brace: an opening one can only start the inner group, a closing one can only end the
  match, so the match is found without backtracking. The function is given the input at
  that brace and gives what is behind the match.
\<close>

function objTail :: "string \<Rightarrow> string option" where
  "objTail [] = None"
| "objTail (c # r) =
     (if c = CHR ''}'' then Some r
      else if c = CHR ''{'' then
        (case dropWhile notBrace r of
           [] \<Rightarrow> None
         | c2 # r2 \<Rightarrow> if c2 = CHR ''}'' then objTail (dropWhile notBrace r2) else None)
      else None)"
  by pat_completeness auto
termination
proof (relation "measure length")
  show "wf (measure (length :: string \<Rightarrow> nat))" by simp
next
  fix c :: char and r x21 x22
  assume "dropWhile notBrace r = x21 # x22"
  then have "length (x21 # x22) \<le> length r"
    using length_dropWhile_le [of notBrace r] by simp
  moreover have "length (dropWhile notBrace x22) \<le> length x22"
    by (rule length_dropWhile_le)
  ultimately show "(dropWhile notBrace x22, c # r) \<in> measure length"
    by simp
qed

definition jsonAt :: "string \<Rightarrow> (string \<times> nat) option" where
  "jsonAt s =
     (case s of
        [] \<Rightarrow> None
      | c # r \<Rightarrow>
          if c = CHR ''{'' then
            (case objTail (dropWhile notBrace r) of
               None \<Rightarrow> None
             | Some behind \<Rightarrow>
                 Some (take (length s - length behind) s, length s - length behind - 1))
          else None)"

definition jsonCandidates :: "string \<Rightarrow> string list" where
  "jsonCandidates scriptContent = matchAll jsonAt scriptContent"

text \<open>
  Lines 282 to 293. \<^verbatim>\<open>JSON.parse\<close> is a parameter, \<^term>\<open>None\<close> where it throws;
  \<^verbatim>\<open>extractFromRequireData\<close> is a parameter too: it returns a record or \<^verbatim>\<open>null\<close> and throws
  nothing, its body being inside \<^verbatim>\<open>try\<close> and \<^verbatim>\<open>catch\<close>.
\<close>

fun scanCandidates ::
  "(string \<Rightarrow> 'j option) \<Rightarrow> ('j \<Rightarrow> mediaRecord option) \<Rightarrow> string list \<Rightarrow>
     mediaRecord option \<Rightarrow> mediaRecord option" where
  "scanCandidates parse extract [] postData = postData"
| "scanCandidates parse extract (jsonMatch # others) postData =
     (case parse jsonMatch of
        None \<Rightarrow> scanCandidates parse extract others postData
      | Some data \<Rightarrow>
          (let found = extract data in
           if hasMedia found then found else scanCandidates parse extract others found))"

text \<open>Lines 274 to 299.\<close>

fun scanScripts ::
  "(string \<Rightarrow> 'j option) \<Rightarrow> ('j \<Rightarrow> mediaRecord option) \<Rightarrow> string list \<Rightarrow>
     mediaRecord option \<Rightarrow> mediaRecord option" where
  "scanScripts parse extract [] postData = postData"
| "scanScripts parse extract (scriptContent # others) postData =
     (if includes_str scriptContent ''video_url'' \<or> includes_str scriptContent ''display_url'' then
        (let found = scanCandidates parse extract (jsonCandidates scriptContent) postData in
         if hasMedia found then found else scanScripts parse extract others found)
      else scanScripts parse extract others postData)"

text \<open>
  Lines 271 to 340: the methods behind the first one. The JSON-LD block and the
  sharedData block are parameters that map the page and \<^verbatim>\<open>postData\<close> to the new
  \<^verbatim>\<open>postData\<close> (unchanged where the pattern does not match or the block throws inside its
  \<^verbatim>\<open>try\<close>); \<^verbatim>\<open>parseMetaTags\<close> is a parameter as well.
\<close>

definition laterStrategies ::
  "(string \<Rightarrow> 'j option) \<Rightarrow> ('j \<Rightarrow> mediaRecord option) \<Rightarrow>
   (string \<Rightarrow> mediaRecord option \<Rightarrow> mediaRecord option) \<Rightarrow>
   (string \<Rightarrow> mediaRecord option \<Rightarrow> mediaRecord option) \<Rightarrow>
   (string \<Rightarrow> mediaRecord option) \<Rightarrow> string \<Rightarrow> mediaRecord option \<Rightarrow> mediaRecord option" where
  "laterStrategies parse extract jsonLdBlock sharedDataBlock parseMetaTags html postData =
     (let pd2 = (if hasMedia postData then postData
                 else scanScripts parse extract (scriptBodies html) postData);
          pd3 = (if hasMedia pd2 then pd2 else jsonLdBlock html pd2);
          pd4 = (if hasMedia pd3 then pd3 else sharedDataBlock html pd3)
      in if hasMedia pd4 then pd4 else parseMetaTags html)"

section \<open>The browser override and the response (lines 342 to 404)\<close>

definition isVideoUrl :: "string \<Rightarrow> bool" where
  "isVideoUrl url \<longleftrightarrow> includes_str url ''/reel/'' \<or> includes_str url ''/tv/''"

text \<open>
  Lines 344 to 356. The browser fallback is a parameter: it returns a record or \<^verbatim>\<open>null\<close>,
  or throws. The second component lists the URLs it was called with.
\<close>

definition browserOverride ::
  "(string \<Rightarrow> error + mediaRecord option) \<Rightarrow> string \<Rightarrow> mediaRecord option \<Rightarrow>
     mediaRecord option \<times> string list" where
  "browserOverride fallback url postData =
     (if isVideoUrl url \<and> (case postData of None \<Rightarrow> False | Some r \<Rightarrow> mediaType r = Image) then
        (case fallback url of
           Inl e \<Rightarrow> (postData, [url])
         | Inr puppeteerData \<Rightarrow>
             if hasMedia puppeteerData
                \<and> (case puppeteerData of None \<Rightarrow> False | Some p \<Rightarrow> mediaType p = Video)
             then (puppeteerData, [url])
             else (postData, [url]))
      else (postData, []))"

datatype response = Ok200 mediaRecord | NotFound404

text \<open>Lines 359 to 404; \<open>now\<close> is \<^verbatim>\<open>new Date().toISOString()\<close>.\<close>

definition respond :: "string \<Rightarrow> mediaRecord option \<Rightarrow> response" where
  "respond now postData =
     (case postData of
        None \<Rightarrow> NotFound404
      | Some r \<Rightarrow>
          if mediaUrl r = [] then NotFound404
          else Ok200 (r\<lparr>mediaUrl := decodeUrlEntities (mediaUrl r),
                        thumbnailUrl := decodeUrlEntities (thumbnailUrl r),
                        timestamp := Some now\<rparr>))"

section \<open>The muxer (server.js, lines 1006 to 1084)\<close>

text \<open>
  What the browser fallback and the muxer act on: the files of the temp directory, the
  downloads that were started (URL and target path), the state of the browser session
  and the number of calls of \<^verbatim>\<open>browser.close()\<close>.
\<close>

datatype browserState = NotLaunched | Open | Closed

record world =
  files :: "string set"
  downloads :: "(string \<times> string) list"
  browser :: browserState
  closeCalls :: nat

text \<open>
  What the outside decides: which call of the browser throws, whether the k-th call of
  \<^verbatim>\<open>browser.close()\<close> succeeds, the responses seen while the page loads (URL and content
  type), the metadata read from the page, which downloads succeed, how ffmpeg ends and
  whether a failed run left an output file. \<^verbatim>\<open>md5hex\<close> is the MD5 digest in hexadecimal;
  \<^verbatim>\<open>tempDir\<close> and \<^verbatim>\<open>baseUrl\<close> are the constants \<^verbatim>\<open>TEMP_DIR\<close> and \<^verbatim>\<open>BASE_URL\<close>.
\<close>

record env =
  stepFails :: "step \<Rightarrow> bool"
  closeOk :: "nat \<Rightarrow> bool"
  responses :: "(string \<times> string) list"
  pageCaption :: string
  pageAuthor :: string
  fetchOk :: "string \<Rightarrow> bool"
  ffmpegOk :: bool
  ffmpegWrote :: bool
  md5hex :: "string \<Rightarrow> string"
  tempDir :: string
  baseUrl :: string

definition pathJoin :: "string \<Rightarrow> string \<Rightarrow> string" where
  "pathJoin dir name = dir @ ''/'' @ name"

text \<open>
  \<^verbatim>\<open>downloadFile\<close>: \<^verbatim>\<open>fs.createWriteStream\<close> creates the file, then the request is sent; when
  the request fails the promise is rejected and the file stays.
\<close>

definition downloadFile :: "env \<Rightarrow> string \<Rightarrow> string \<Rightarrow> world \<Rightarrow> (error + unit) \<times> world" where
  "downloadFile e url filepath w =
     (let w' = w\<lparr>files := insert filepath (files w), downloads := downloads w @ [(url, filepath)]\<rparr>
      in if fetchOk e url then (Inr (), w') else (Inl (DownloadFailed url), w'))"

text \<open>
  \<^verbatim>\<open>mergeVideoAudio\<close>. A rejected download reaches the outer \<^verbatim>\<open>catch\<close>, which only rejects;
  the handler of the \<^verbatim>\<open>error\<close> event of ffmpeg removes the three files where they exist; the
  handler of \<^verbatim>\<open>end\<close> removes the two inputs.
\<close>

definition mergeVideoAudio ::
  "env \<Rightarrow> string \<Rightarrow> string \<Rightarrow> string \<Rightarrow> world \<Rightarrow> (error + string) \<times> world" where
  "mergeVideoAudio e videoUrl audioUrl instagramUrl w =
     (let hash = md5hex e instagramUrl;
          videoPath = pathJoin (tempDir e) (hash @ ''_video.mp4'');
          audioPath = pathJoin (tempDir e) (hash @ ''_audio.mp4'');
          outputPath = pathJoin (tempDir e) (hash @ ''_merged.mp4'')
      in
      if outputPath \<in> files w then (Inr outputPath, w)
      else
        (case downloadFile e videoUrl videoPath w of
           (Inl err, w1) \<Rightarrow> (Inl err, w1)
         | (Inr _, w1) \<Rightarrow>
             (case downloadFile e audioUrl audioPath w1 of
                (Inl err, w2) \<Rightarrow> (Inl err, w2)
              | (Inr _, w2) \<Rightarrow>
                  if ffmpegOk e then
                    (Inr outputPath,
                     w2\<lparr>files := insert outputPath (files w2) - {videoPath} - {audioPath}\<rparr>)
                  else
                    (Inl FfmpegFailed,
                     w2\<lparr>files := (if ffmpegWrote e then insert outputPath (files w2) else files w2)
                                   - {videoPath} - {audioPath} - {outputPath}\<rparr>))))"

section \<open>The browser fallback (server.js, lines 797 to 990)\<close>

text \<open>One call of \<^verbatim>\<open>browser.close()\<close>: whether it succeeded, and the world behind it.\<close>

definition closeBrowser :: "env \<Rightarrow> world \<Rightarrow> bool \<times> world" where
  "closeBrowser e w =
     (let ok = closeOk e (closeCalls w) in
      (ok, w\<lparr>closeCalls := Suc (closeCalls w),
              browser := (if ok then Closed else browser w)\<rparr>))"

fun firstFailure :: "(step \<Rightarrow> bool) \<Rightarrow> step list \<Rightarrow> step option" where
  "firstFailure fails [] = None"
| "firstFailure fails (s # ss) = (if fails s then Some s else firstFailure fails ss)"

text \<open>The handler of \<^verbatim>\<open>response\<close> (lines 830 to 861) on its three variables.\<close>

definition onResponse ::
  "string \<times> string \<Rightarrow> string list \<times> string list \<times> string option \<Rightarrow>
     string list \<times> string list \<times> string option" where
  "onResponse r acc =
     (case (r, acc) of
        ((responseUrl, contentType), (videoUrls, audioUrls, thumbnail)) \<Rightarrow>
          (let isAudio = (includes_str responseUrl ''/t16/'' \<or> includes_str responseUrl ''/m69/''
                          \<or> includes_str responseUrl ''audio'' \<or> includes_str responseUrl ''heaac'');
               isMp4 = ((includes_str contentType ''video'' \<or> includes_str responseUrl ''.mp4'')
                        \<and> includes_str responseUrl ''.mp4'');
               thumbnail' =
                 (if (includes_str contentType ''image'' \<or> includes_str responseUrl ''.jpg'')
                     \<and> \<not> truthyStr thumbnail
                     \<and> (includes_str responseUrl ''cdninstagram.com''
                          \<or> includes_str responseUrl ''fbcdn.net'')
                  then Some responseUrl else thumbnail)
           in
           if isMp4 \<and> isAudio then (videoUrls, audioUrls @ [responseUrl], thumbnail')
           else if isMp4 then (videoUrls @ [responseUrl], audioUrls, thumbnail')
           else (videoUrls, audioUrls, thumbnail')))"

definition qualityOrder :: "string list" where
  "qualityOrder = [''q90'', ''q80'', ''q70'', ''q60'', ''q50'', ''q40'']"

text \<open>Lines 919 to 933.\<close>

fun selectByQuality :: "string list \<Rightarrow> string list \<Rightarrow> string option" where
  "selectByQuality [] videoUrls = None"
| "selectByQuality (quality # others) videoUrls =
     (case find (\<lambda>url. includes_str url quality) videoUrls of
        Some found \<Rightarrow> Some found
      | None \<Rightarrow> selectByQuality others videoUrls)"

definition bestVideoUrl :: "string list \<Rightarrow> string" where
  "bestVideoUrl videoUrls =
     (case selectByQuality qualityOrder videoUrls of
        Some found \<Rightarrow> found
      | None \<Rightarrow> (case videoUrls of [] \<Rightarrow> [] | first # _ \<Rightarrow> first))"

text \<open>\<^verbatim>\<open>cleanUrl\<close> on a string that is there.\<close>

definition cleanUrlOf :: "string \<Rightarrow> string" where
  "cleanUrlOf u = (case cleanUrl (Some u) of None \<Rightarrow> u | Some c \<Rightarrow> c)"

text \<open>\<^verbatim>\<open>path.basename\<close> of a path with \<^verbatim>\<open>/\<close> as separator.\<close>

definition basename :: "string \<Rightarrow> string" where
  "basename p = last (split_on CHR ''/'' p)"

text \<open>The record of lines 947 to 977, which differ in \<^verbatim>\<open>mediaUrl\<close> only.\<close>

definition videoRecord :: "env \<Rightarrow> string \<Rightarrow> string option \<Rightarrow> mediaRecord" where
  "videoRecord e url thumbnail =
     \<lparr>mediaUrl = url, thumbnailUrl = jsOr thumbnail [],
      caption = decodeHtmlEntities
                  (gsub (lit [bslash, dquote] [dquote])
                     (gsub (lit [bslash, CHR ''n''] [CHR 0x0A]) (pageCaption e))),
      author = pageAuthor e, mediaType = Video, timestamp = None\<rparr>"

text \<open>Lines 914 to 982, behind the close of the browser.\<close>

definition processCapture :: "env \<Rightarrow> string \<Rightarrow> world \<Rightarrow> (error + mediaRecord option) \<times> world" where
  "processCapture e url w =
     (case fold onResponse (responses e) ([], [], None) of
        (videoUrls, audioUrls, thumbnail) \<Rightarrow>
          if videoUrls = [] then (Inr None, w)
          else
            (let cleanVideoUrl = cleanUrlOf (bestVideoUrl videoUrls) in
             case audioUrls of
               [] \<Rightarrow> (Inr (Some (videoRecord e cleanVideoUrl thumbnail)), w)
             | firstAudio # _ \<Rightarrow>
                 (case mergeVideoAudio e cleanVideoUrl (cleanUrlOf firstAudio) url w of
                    (Inr mergedVideoPath, w') \<Rightarrow>
                      (Inr (Some (videoRecord e (baseUrl e @ ''/temp/'' @ basename mergedVideoPath)
                                    thumbnail)), w')
                  | (Inl err, w') \<Rightarrow>
                      (Inr (Some (videoRecord e cleanVideoUrl thumbnail)), w'))))"

text \<open>
  \<^verbatim>\<open>extractWithPuppeteer\<close>. The calls of the browser before the close are taken in their
  order; the first that throws enters the \<^verbatim>\<open>catch\<close> block, which closes the browser when
  \<^verbatim>\<open>browser\<close> is set and throws again. A close that throws enters the same block.
\<close>

definition extractWithPuppeteer ::
  "env \<Rightarrow> string \<Rightarrow> world \<Rightarrow> (error + mediaRecord option) \<times> world" where
  "extractWithPuppeteer e url w =
     (if stepFails e Launch then (Inl (StepFailed Launch), w)
      else
        (let w1 = w\<lparr>browser := Open\<rparr> in
         case firstFailure (stepFails e)
                [NewPage, SetViewport, SetUserAgent, SetRequestInterception, Goto, Evaluate] of
           Some s \<Rightarrow>
             (case closeBrowser e w1 of
                (ok, w2) \<Rightarrow> (if ok then Inl (StepFailed s) else Inl CloseFailed, w2))
         | None \<Rightarrow>
             (case closeBrowser e w1 of
                (ok, w2) \<Rightarrow>
                  if ok then processCapture e url w2
                  else (case closeBrowser e w2 of (ok', w3) \<Rightarrow> (Inl CloseFailed, w3)))))"

section \<open>Notions for the proofs\<close>

definition shrinking :: "('a list \<Rightarrow> ('a list \<times> nat) option) \<Rightarrow> bool" where
  "shrinking m \<longleftrightarrow> (\<forall>s r n. m s = Some (r, n) \<longrightarrow> length r \<le> n \<and> n < length s)"

definition contracting :: "('a list \<Rightarrow> 'a list) \<Rightarrow> bool" where
  "contracting f \<longleftrightarrow> (\<forall>x. f x = x \<or> length (f x) < length x)"

definition seg :: "string \<Rightarrow> string" where
  "seg s = takeWhile (\<lambda>c. \<not> isSep c) s"

definition sepLed :: "string \<Rightarrow> bool" where
  "sepLed s \<longleftrightarrow> (case s of [] \<Rightarrow> True | c # _ \<Rightarrow> isSep c)"

definition cutter :: "(string \<Rightarrow> (string \<times> nat) option) \<Rightarrow> bool" where
  "cutter m \<longleftrightarrow>
     (\<forall>s r n. m s = Some (r, n) \<longrightarrow> r = [] \<and> n < length s \<and> sepLed (drop (Suc n) s))"

definition headLocal :: "(string \<Rightarrow> (string \<times> nat) option) \<Rightarrow> bool" where
  "headLocal m \<longleftrightarrow>
     (\<forall>c t t'. prefix (seg t') (seg t) \<and> m (c # t) = None \<longrightarrow> m (c # t') = None)"

definition sepBlind :: "(string \<Rightarrow> (string \<times> nat) option) \<Rightarrow> bool" where
  "sepBlind m \<longleftrightarrow>
     (\<forall>c c' t. isSep c \<and> isSep c' \<and> m (c # t) = None \<longrightarrow> m (c' # t) = None)"

fun nohit :: "('a list \<Rightarrow> 'b option) \<Rightarrow> 'a list \<Rightarrow> bool" where
  "nohit m [] = True"
| "nohit m (c # t) = (m (c # t) = None \<and> nohit m t)"

definition sepFree :: "string \<Rightarrow> bool" where
  "sepFree s \<longleftrightarrow> (\<forall>c\<in>set s. \<not> isSep c)"

definition suffixing :: "rx \<Rightarrow> bool" where
  "suffixing p \<longleftrightarrow> (\<forall>s r. p s = Some r \<longrightarrow> (\<exists>pre. s = pre @ r \<and> sepFree pre))"

definition rxLocal :: "rx \<Rightarrow> bool" where
  "rxLocal p \<longleftrightarrow>
     (\<forall>a b r. sepFree a \<and> sepLed b \<and> p (a @ b) = Some r \<longrightarrow> (\<exists>r'. r = r' @ b \<and> p a = Some r'))"

definition rxStable :: "rx \<Rightarrow> bool" where
  "rxStable p \<longleftrightarrow> (\<forall>a r x. p a = Some r \<and> r \<noteq> [] \<longrightarrow> p (a @ x) = Some (r @ x))"

definition nice :: "rx \<Rightarrow> bool" where
  "nice p \<longleftrightarrow> suffixing p \<and> rxLocal p \<and> rxStable p"

definition inSegment :: "(char \<Rightarrow> bool) \<Rightarrow> bool" where
  "inSegment P \<longleftrightarrow> (\<forall>c. P c \<longrightarrow> \<not> isSep c)"

definition sizeHead :: "rx list" where
  "sizeHead =
     [rxLit ''/s'', rxPlus isDigit, rxLit ''x'', rxPlus isDigit, rxOpt isLower,
      rxLit ''_'', rxPlus isLower]"

definition stripCore :: "string \<Rightarrow> string" where
  "stripCore u = normSeps True (gsub pathMatch (fold (\<lambda>key. gsub (paramMatch key)) sizeParams u))"

section \<open>Example inputs\<close>

text \<open>
  Four entries of \<^verbatim>\<open>display_resources\<close>, the second and the third of the same area and
  the largest without a \<^verbatim>\<open>src\<close>; three matches of the entry pattern of the handler.
\<close>

definition exampleResources :: "displayResource list" where
  "exampleResources =
     [\<lparr>src = Some ''a'', config_width = Some 10, config_height = Some 10\<rparr>,
      \<lparr>src = Some ''b'', config_width = Some 20, config_height = Some 20\<rparr>,
      \<lparr>src = Some ''c'', config_width = Some 40, config_height = Some 10\<rparr>,
      \<lparr>src = None, config_width = Some 90, config_height = Some 90\<rparr>]"

definition exampleMatches :: "(string \<times> nat \<times> nat) list" where
  "exampleMatches = [(''a'', 10, 10), (''b'', 20, 20), (''c'', 40, 10)]"

text \<open>The page \<^verbatim>\<open>"video_url":"v?stp=1","display_url":"d"\<close>.\<close>

definition videoPage :: string where
  "videoPage =
     jsonKey ''video_url'' @ [dquote] @ ''v?stp=1'' @ [dquote] @ '','' @
     jsonKey ''display_url'' @ [dquote] @ ''d'' @ [dquote]"

text \<open>The same page followed by \<^verbatim>\<open>"taken_at_timestamp":99999999999999\<close>.\<close>

definition farFuturePage :: string where
  "farFuturePage = videoPage @ jsonKey ''taken_at_timestamp'' @ ''99999999999999''"

text \<open>
  A script with a fragment that is not JSON followed by \<^verbatim>\<open>{"video_url": "u"}\<close>, and a
  stand-in for \<^verbatim>\<open>JSON.parse\<close> that accepts the second fragment only.
\<close>

definition goodFragment :: string where
  "goodFragment = ''{'' @ jsonKey ''video_url'' @ '' '' @ [dquote] @ ''u'' @ [dquote] @ ''}''"

definition goodScript :: string where
  "goodScript = ''{video_url} '' @ goodFragment"

definition scriptPage :: string where
  "scriptPage = ''<script>'' @ goodScript @ ''</script>''"

definition parseGoodOnly :: "string \<Rightarrow> bool option" where
  "parseGoodOnly s = (if s = goodFragment then Some True else None)"

text \<open>
  A page with two scripts: the first carries a marker and one fragment that is not JSON,
  the second is the script above. A page with the first of these scripts behind the tag
  \<^verbatim>\<open><meta property="og:image" content="i.jpg">\<close>, from which \<^verbatim>\<open>parseMetaTags\<close> builds the
  record \<open>imageRecord\<close> below.
\<close>

definition malformedPage :: string where
  "malformedPage = ''<script>{display_url}</script>''"

definition twoScriptPage :: string where
  "twoScriptPage = malformedPage @ scriptPage"

definition metaPage :: string where
  "metaPage =
     ''<meta property='' @ [dquote] @ ''og:image'' @ [dquote] @ '' content='' @ [dquote] @
     ''i.jpg'' @ [dquote] @ ''>'' @ malformedPage"

text \<open>
  The object \<^verbatim>\<open>{"video_url": "u","x":{"y":{}}}\<close>, whose braces are nested three deep, in a
  script behind a fragment that is not JSON. The stand-in for \<^verbatim>\<open>JSON.parse\<close> accepts the
  object (\<^term>\<open>True\<close>) and its part \<^verbatim>\<open>{"y":{}}\<close> (\<^term>\<open>False\<close>); the stand-in for
  \<^verbatim>\<open>extractFromRequireData\<close> finds a record in the first and nothing in the second.
\<close>

definition innerFragment :: string where
  "innerFragment = ''{'' @ jsonKey ''y'' @ ''{}}''"

definition deepFragment :: string where
  "deepFragment =
     ''{'' @ jsonKey ''video_url'' @ '' '' @ [dquote] @ ''u'' @ [dquote] @ '','' @
     jsonKey ''x'' @ innerFragment @ ''}''"

definition deepScript :: string where
  "deepScript = ''{video_url} '' @ deepFragment"

definition deepPage :: string where
  "deepPage = ''<script>'' @ deepScript @ ''</script>''"

definition parseDeep :: "string \<Rightarrow> bool option" where
  "parseDeep s =
     (if s = deepFragment then Some True else if s = innerFragment then Some False else None)"

definition foundRecord :: mediaRecord where
  "foundRecord =
     \<lparr>mediaUrl = ''u'', thumbnailUrl = ''u'', caption = [], author = ''Unknown'',
      mediaType = Video, timestamp = None\<rparr>"

definition extractDeep :: "bool \<Rightarrow> mediaRecord option" where
  "extractDeep data = (if data then Some foundRecord else None)"

definition imageRecord :: mediaRecord where
  "imageRecord =
     \<lparr>mediaUrl = ''i.jpg'', thumbnailUrl = ''i.jpg'', caption = [], author = ''Unknown'',
      mediaType = Image, timestamp = None\<rparr>"

text \<open>
  A world with an empty temp directory and no browser; an environment where the page
  shows one video stream and one audio stream, the download of the audio stream fails and
  every call of the browser succeeds; the same environment where \<^verbatim>\<open>goto\<close> throws.
\<close>

definition emptyWorld :: world where
  "emptyWorld = \<lparr>files = {}, downloads = [], browser = NotLaunched, closeCalls = 0\<rparr>"

definition audioFails :: env where
  "audioFails =
     \<lparr>stepFails = (\<lambda>s. False), closeOk = (\<lambda>k. True),
      responses = [(''c/v.mp4'', ''video/mp4''), (''c/audio.mp4'', ''video/mp4'')],
      pageCaption = ''hi'', pageAuthor = ''me'',
      fetchOk = (\<lambda>u. u = ''c/v.mp4''), ffmpegOk = True, ffmpegWrote = False,
      md5hex = (\<lambda>u. ''h''), tempDir = ''/t'', baseUrl = ''http://s''\<rparr>"

definition gotoFails :: env where
  "gotoFails = audioFails\<lparr>stepFails := (\<lambda>s. s = Goto)\<rparr>"

text \<open>The same environment with a browser whose \<^verbatim>\<open>close\<close> always throws.\<close>

definition closeFails :: env where
  "closeFails = audioFails\<lparr>closeOk := (\<lambda>k. False)\<rparr>"

definition cachedWorld :: world where
  "cachedWorld = emptyWorld\<lparr>files := {''/t/h_merged.mp4''}\<rparr>"

section \<open>Facts about splitting and joining\<close>

lemma split_on_not_Nil: "split_on d s \<noteq> []"
  by (induction s) (auto split: list.splits)

lemma split_on_no_sep: "d \<notin> set s \<Longrightarrow> split_on d s = [s]"
  by (induction s) auto

lemma split_on_append_sep:
  "d \<notin> set p \<Longrightarrow> split_on d (p @ d # s) = p # split_on d s"
  by (induction p) auto

lemma split_on_join_with:
  "ps \<noteq> [] \<Longrightarrow> \<forall>p\<in>set ps. d \<notin> set p \<Longrightarrow> split_on d (join_with d ps) = ps"
proof (induction d ps rule: join_with.induct)
  case (1 d)
  then show ?case by simp
next
  case (2 d p)
  then show ?case by (simp add: split_on_no_sep)
next
  case (3 d p q ps)
  then show ?case by (simp add: split_on_append_sep)
qed

lemma split_on_parts: "\<forall>p\<in>set (split_on d s). d \<notin> set p"
  by (induction s) (auto split: list.splits)

lemma join_with_Cons: "ps \<noteq> [] \<Longrightarrow> join_with d (p # ps) = p @ d # join_with d ps"
  by (cases ps) simp_all

lemma join_with_split_on: "join_with d (split_on d s) = s"
proof (induction s)
  case Nil
  then show ?case by simp
next
  case (Cons c cs)
  show ?case
  proof (cases "c = d")
    case True
    with Cons show ?thesis
      by (simp add: join_with_Cons split_on_not_Nil)
  next
    case False
    obtain p ps where s: "split_on d cs = p # ps"
      using split_on_not_Nil [of d cs] by (cases "split_on d cs") auto
    with Cons have "join_with d (p # ps) = cs" by simp
    then have "join_with d ((c # p) # ps) = c # cs"
      by (cases ps) simp_all
    with False s show ?thesis by simp
  qed
qed

text \<open>
  Every URL with one \<^verbatim>\<open>?\<close> is a base, the \<^verbatim>\<open>?\<close>, and parameters joined by \<^verbatim>\<open>&\<close>, none of
  which has a \<^verbatim>\<open>?\<close> or a \<^verbatim>\<open>&\<close>.
\<close>

lemma url_with_one_question_mark:
  assumes "CHR ''?'' \<notin> set b" "CHR ''?'' \<notin> set q"
  shows "b @ ''?'' @ q = b @ ''?'' @ join_with CHR ''&'' (split_on CHR ''&'' q) \<and>
         (\<forall>p\<in>set (split_on CHR ''&'' q). CHR ''?'' \<notin> set p \<and> CHR ''&'' \<notin> set p)"
proof -
  have "set p \<subseteq> set q" if "p \<in> set (split_on CHR ''&'' q)" for p
  proof -
    have "\<forall>p\<in>set (split_on d s). set p \<subseteq> set s" for d s
      by (induction s) (auto split: list.splits)
    with that show ?thesis by blast
  qed
  with assms(2) split_on_parts [of "CHR ''&''" q] show ?thesis
    by (auto simp: join_with_split_on)
qed

lemma join_with_no_char:
  "c \<noteq> d \<Longrightarrow> \<forall>p\<in>set ps. c \<notin> set p \<Longrightarrow> c \<notin> set (join_with d ps)"
  by (induction d ps rule: join_with.induct) auto

lemma join_with_Nil: "join_with d ps = [] \<Longrightarrow> ps = [] \<or> ps = [[]]"
  by (induction d ps rule: join_with.induct) auto

lemma cleanUrl_query:
  assumes b: "CHR ''?'' \<notin> set b"
    and ps: "\<forall>p\<in>set ps. CHR ''?'' \<notin> set p \<and> CHR ''&'' \<notin> set p"
  shows "cleanUrl (Some (b @ ''?'' @ join_with CHR ''&'' ps)) =
         Some (b @ ''?'' @ join_with CHR ''&'' (filter keepParam ps))"
proof -
  let ?q = "join_with CHR ''&'' ps"
  have q: "CHR ''?'' \<notin> set ?q"
    using ps by (intro join_with_no_char) auto
  have parts: "split_on CHR ''?'' (b @ ''?'' @ ?q) = [b, ?q]"
    using b q by (simp add: split_on_append_sep split_on_no_sep)
  show ?thesis
  proof (cases "?q = []")
    case True
    have "filter keepParam ps = [] \<or> filter keepParam ps = [[]]"
      using join_with_Nil [OF True] by (auto simp: keepParam_def)
    then have "join_with CHR ''&'' (filter keepParam ps) = []"
      by auto
    with True parts show ?thesis
      by (simp add: cleanUrl_def)
  next
    case False
    then have "ps \<noteq> []" by auto
    then have "split_on CHR ''&'' ?q = ps"
      using ps by (intro split_on_join_with) auto
    with False parts show ?thesis
      by (simp add: cleanUrl_def)
  qed
qed

section \<open>decodeUrlEntities ends and is idempotent\<close>

lemma gsub_length:
  "shrinking m \<Longrightarrow> gsub m s = s \<or> length (gsub m s) < length s"
proof (induction m s rule: gsub.induct)
  case (1 m)
  then show ?case by simp
next
  case (2 m c t)
  show ?case
  proof (cases "m (c # t)")
    case None
    then have g: "gsub m (c # t) = c # gsub m t" by simp
    from 2(1) [OF None 2(3)] show ?thesis
      unfolding g by auto
  next
    case (Some a)
    obtain r n where a: "a = (r, n)" by (cases a)
    have mc: "m (c # t) = Some (r, n)" using Some a by simp
    then have g: "gsub m (c # t) = r @ gsub m (drop n t)" by simp
    from 2(3) mc have "length r \<le> n \<and> n < length (c # t)"
      unfolding shrinking_def by blast
    then have rn: "length r \<le> n" "n \<le> length t"
      by simp_all
    have "length (gsub m (drop n t)) \<le> length (drop n t)"
      using 2(2) [OF Some a [symmetric] 2(3)] by auto
    then have "length (gsub m (drop n t)) \<le> length t - n"
      by simp
    with rn have "length (r @ gsub m (drop n t)) < length (c # t)"
      by simp
    then show ?thesis
      unfolding g by blast
  qed
qed

lemma contracting_gsub: "shrinking m \<Longrightarrow> contracting (gsub m)"
  unfolding contracting_def using gsub_length by blast

lemma contracting_comp:
  assumes f: "contracting f" and g: "contracting g"
  shows "contracting (\<lambda>x. g (f x))"
  unfolding contracting_def
proof
  fix x
  from f have 1: "f x = x \<or> length (f x) < length x"
    unfolding contracting_def by blast
  from g have 2: "g (f x) = f x \<or> length (g (f x)) < length (f x)"
    unfolding contracting_def by blast
  from 1 2 show "g (f x) = x \<or> length (g (f x)) < length x"
    by (elim disjE) auto
qed

lemma contracting_fold:
  "\<forall>a\<in>set as. contracting (f a) \<Longrightarrow> contracting (fold f as)"
proof (induction as)
  case Nil
  then show ?case by (simp add: contracting_def)
next
  case (Cons a as)
  then have "contracting (f a)" and "contracting (fold f as)"
    by simp_all
  then have "contracting (\<lambda>x. fold f as (f a x))"
    by (rule contracting_comp [where f = "f a" and g = "fold f as"])
  then show ?case by (simp add: comp_def)
qed

lemma ciPrefix_length: "ciPrefix pat s \<Longrightarrow> length pat \<le> length s"
  by (induction pat s rule: ciPrefix.induct) (simp_all split: if_splits)

lemma shrinking_lit_i: "length rep < length pat \<Longrightarrow> shrinking (lit_i pat rep)"
  unfolding shrinking_def lit_i_def
  by (auto split: if_splits dest!: ciPrefix_length)

lemma contracting_decodePass: "contracting decodePass"
proof -
  have "\<forall>a\<in>set urlEntities. contracting (case a of (pat, rep) \<Rightarrow> gsub (lit_i pat rep))"
    by (simp add: urlEntities_def contracting_gsub shrinking_lit_i)
  then have "contracting (fold (\<lambda>(pat, rep). gsub (lit_i pat rep)) urlEntities)"
    by (rule contracting_fold)
  then show ?thesis
    by (simp add: decodePass_def [abs_def])
qed

lemma decodePass_shorter: "decodePass s \<noteq> s \<Longrightarrow> length (decodePass s) < length s"
  using contracting_decodePass unfolding contracting_def by blast

termination decodeLoop
proof (relation "measure (\<lambda>(decoded, previous). 2 * length decoded + (if decoded = previous then 0 else 1))")
  show "wf (measure (\<lambda>(decoded, previous :: string). 2 * length decoded + (if decoded = previous then 0 else 1)))"
    by simp
next
  fix decoded previous :: string
  assume "decoded \<noteq> previous"
  then show "((decodePass decoded, decoded), (decoded, previous)) \<in>
    measure (\<lambda>(decoded, previous). 2 * length decoded + (if decoded = previous then 0 else 1))"
    using decodePass_shorter [of decoded] by auto
qed

declare decodeLoop.simps [simp del]

lemma decodeLoop_fixed:
  "decoded \<noteq> previous \<Longrightarrow> decodePass (decodeLoop decoded previous) = decodeLoop decoded previous"
proof (induction decoded previous rule: decodeLoop.induct)
  case (1 decoded previous)
  have step: "decodeLoop decoded previous = decodeLoop (decodePass decoded) decoded"
    using 1(2) by (subst decodeLoop.simps) simp
  show ?case
  proof (cases "decodePass decoded = decoded")
    case True
    have "decodeLoop (decodePass decoded) decoded = decoded"
      using True by (subst decodeLoop.simps) simp
    with step True show ?thesis by simp
  next
    case False
    with 1 step show ?thesis by simp
  qed
qed

lemma decodeLoop_at_fixed:
  "decodePass s = s \<Longrightarrow> s \<noteq> previous \<Longrightarrow> decodeLoop s previous = s"
  by (subst decodeLoop.simps, subst decodeLoop.simps) simp

lemma decodeUrlEntities_fixed: "decodePass (decodeUrlEntities s) = decodeUrlEntities s"
proof (cases "s = []")
  case True
  then show ?thesis by (simp add: decodeUrlEntities_def decodePass_def urlEntities_def)
next
  case False
  then show ?thesis by (simp add: decodeUrlEntities_def decodeLoop_fixed)
qed

lemma decodeUrlEntities_idem: "decodeUrlEntities (decodeUrlEntities s) = decodeUrlEntities s"
proof (cases "decodeUrlEntities s = []")
  case True
  then show ?thesis by (simp add: decodeUrlEntities_def)
next
  case False
  have "decodeLoop (decodeUrlEntities s) [] = decodeUrlEntities s"
    using False decodeUrlEntities_fixed [of s] by (intro decodeLoop_at_fixed)
  with False show ?thesis
    by (simp add: decodeUrlEntities_def)
qed

section \<open>The size block is idempotent\<close>

subsection \<open>Scanning\<close>

lemma seg_Nil [simp]: "seg [] = []"
  by (simp add: seg_def)

lemma seg_Cons: "seg (c # t) = (if isSep c then [] else c # seg t)"
  by (simp add: seg_def)

lemma sepLed_seg: "sepLed s \<Longrightarrow> seg s = []"
  by (cases s) (simp_all add: sepLed_def seg_Cons)

lemma gsub_sepLed: "cutter m \<Longrightarrow> sepLed s \<Longrightarrow> sepLed (gsub m s)"
proof (induction m s rule: gsub.induct)
  case (1 m)
  then show ?case by simp
next
  case (2 m c t)
  show ?case
  proof (cases "m (c # t)")
    case None
    with 2(4) show ?thesis by (simp add: sepLed_def)
  next
    case (Some a)
    obtain r n where a: "a = (r, n)" by (cases a)
    have mc: "m (c # t) = Some (r, n)" using Some a by simp
    with 2(3) have r: "r = []" and led: "sepLed (drop n t)"
      unfolding cutter_def by fastforce+
    have "sepLed (gsub m (drop n t))"
      using 2(2) [OF Some a [symmetric] 2(3) led] .
    with mc r show ?thesis by simp
  qed
qed

lemma gsub_seg: "cutter m \<Longrightarrow> prefix (seg (gsub m s)) (seg s)"
proof (induction m s rule: gsub.induct)
  case (1 m)
  then show ?case by simp
next
  case (2 m c t)
  show ?case
  proof (cases "m (c # t)")
    case None
    with 2(1) [OF None 2(3)] show ?thesis by (simp add: seg_Cons)
  next
    case (Some a)
    obtain r n where a: "a = (r, n)" by (cases a)
    have mc: "m (c # t) = Some (r, n)" using Some a by simp
    with 2(3) have r: "r = []" and led: "sepLed (drop n t)"
      unfolding cutter_def by fastforce+
    have "seg (gsub m (drop n t)) = []"
      using gsub_sepLed [OF 2(3) led] by (rule sepLed_seg)
    with mc r show ?thesis by simp
  qed
qed

lemma nohit_gsub_id: "nohit m s \<Longrightarrow> gsub m s = s"
  by (induction s) simp_all

lemma nohit_drop: "nohit m s \<Longrightarrow> nohit m (drop k s)"
  by (induction s arbitrary: k) (simp_all add: drop_Cons split: nat.splits)

lemma nohit_dropWhile: "nohit m s \<Longrightarrow> nohit m (dropWhile P s)"
  by (induction s) simp_all

lemma nohit_append_Cons: "nohit m (pre @ c # u) \<Longrightarrow> m (c # u) = None"
  by (induction pre) simp_all

lemma gsub_keeps_nohit:
  "cutter m' \<Longrightarrow> headLocal m \<Longrightarrow> nohit m s \<Longrightarrow> nohit m (gsub m' s)"
proof (induction m' s rule: gsub.induct)
  case (1 m')
  then show ?case by simp
next
  case (2 m' c t)
  from 2(5) have mc: "m (c # t) = None" and t: "nohit m t" by simp_all
  show ?case
  proof (cases "m' (c # t)")
    case None
    have "m (c # gsub m' t) = None"
      using 2(4) gsub_seg [OF 2(3), of t] mc unfolding headLocal_def by blast
    moreover have "nohit m (gsub m' t)"
      using 2(1) [OF None 2(3) 2(4) t] .
    ultimately show ?thesis using None by simp
  next
    case (Some a)
    obtain r n where a: "a = (r, n)" by (cases a)
    have mc': "m' (c # t) = Some (r, n)" using Some a by simp
    with 2(3) have r: "r = []"
      unfolding cutter_def by fastforce
    have "nohit m (gsub m' (drop n t))"
      using 2(2) [OF Some a [symmetric] 2(3) 2(4) nohit_drop [OF t]] .
    with mc' r show ?thesis by simp
  qed
qed

lemma gsub_nohit:
  "cutter m \<Longrightarrow> headLocal m \<Longrightarrow> nohit m (gsub m s)"
proof (induction m s rule: gsub.induct)
  case (1 m)
  then show ?case by simp
next
  case (2 m c t)
  show ?case
  proof (cases "m (c # t)")
    case None
    have "m (c # gsub m t) = None"
      using 2(4) gsub_seg [OF 2(3), of t] None unfolding headLocal_def by blast
    moreover have "nohit m (gsub m t)"
      using 2(1) [OF None 2(3) 2(4)] .
    ultimately show ?thesis using None by simp
  next
    case (Some a)
    obtain r n where a: "a = (r, n)" by (cases a)
    have mc: "m (c # t) = Some (r, n)" using Some a by simp
    with 2(3) have r: "r = []"
      unfolding cutter_def by fastforce
    have "nohit m (gsub m (drop n t))"
      using 2(2) [OF Some a [symmetric] 2(3) 2(4)] .
    with mc r show ?thesis by simp
  qed
qed

subsection \<open>The parameter patterns\<close>

lemma prefix_seg: "sepFree k \<Longrightarrow> prefix k t \<Longrightarrow> prefix k (seg t)"
  unfolding sepFree_def seg_def
  by (auto simp: prefix_def takeWhile_append2)

lemma seg_prefix: "prefix (seg t) t"
  unfolding seg_def by (metis prefixI takeWhile_dropWhile_id)

lemma sepLed_dropWhile_amp: "sepLed (dropWhile (\<lambda>x. x \<noteq> CHR ''&'') s)"
  by (induction s) (simp_all add: sepLed_def isSep_def)

lemma sepLed_dropWhile_seg: "sepLed (dropWhile (\<lambda>c. \<not> isSep c) s)"
  by (induction s) (simp_all add: sepLed_def)

lemma cutter_paramMatch: "cutter (paramMatch key)"
  unfolding cutter_def
proof (intro allI impI)
  fix s r n
  assume m: "paramMatch key s = Some (r, n)"
  then obtain c t where s: "s = c # t" and c: "isSep c" and k: "prefix key t"
    and r: "r = []"
    and n: "n = length key + length (takeWhile (\<lambda>x. x \<noteq> CHR ''&'') (drop (length key) t))"
    by (auto simp: paramMatch_def split: list.splits if_splits)
  let ?rest = "drop (length key) t"
  have "length key \<le> length t"
    using k by (rule prefix_length_le)
  moreover have "length (takeWhile (\<lambda>x. x \<noteq> CHR ''&'') ?rest) \<le> length ?rest"
    by (rule length_takeWhile_le)
  ultimately have lt: "n < length s"
    using n s by simp
  have "drop n t = drop (length (takeWhile (\<lambda>x. x \<noteq> CHR ''&'') ?rest)) ?rest"
    using n by (simp add: add.commute)
  also have "\<dots> = dropWhile (\<lambda>x. x \<noteq> CHR ''&'') ?rest"
    by (rule dropWhile_eq_drop [symmetric])
  finally have d: "drop n t = dropWhile (\<lambda>x. x \<noteq> CHR ''&'') ?rest" .
  have "sepLed (dropWhile (\<lambda>x. x \<noteq> CHR ''&'') ?rest)"
    by (rule sepLed_dropWhile_amp)
  with d s r lt show "r = [] \<and> n < length s \<and> sepLed (drop (Suc n) s)"
    by simp
qed

lemma headLocal_paramMatch: "sepFree key \<Longrightarrow> headLocal (paramMatch key)"
  unfolding headLocal_def
proof (intro allI impI, elim conjE)
  fix c t t'
  assume key: "sepFree key" and p: "prefix (seg t') (seg t)"
    and m: "paramMatch key (c # t) = None"
  show "paramMatch key (c # t') = None"
  proof (rule ccontr)
    assume "paramMatch key (c # t') \<noteq> None"
    then have c: "isSep c" and k: "prefix key t'"
      by (auto simp: paramMatch_def split: if_splits)
    have "prefix key (seg t')" using key k by (rule prefix_seg)
    with p have "prefix key (seg t)" by (metis prefix_order.trans)
    then have "prefix key t" using seg_prefix by (metis prefix_order.trans)
    with c m show False by (simp add: paramMatch_def)
  qed
qed

lemma sepBlind_paramMatch: "sepBlind (paramMatch key)"
  unfolding sepBlind_def by (auto simp: paramMatch_def split: if_splits)

lemma sepFree_sizeParams: "key \<in> set sizeParams \<Longrightarrow> sepFree key"
  by (auto simp: sizeParams_def sepFree_def isSep_def)

subsection \<open>The path pattern\<close>

lemma sepFree_append [simp]: "sepFree (a @ b) \<longleftrightarrow> sepFree a \<and> sepFree b"
  by (auto simp: sepFree_def)

lemma sepFree_Nil [simp]: "sepFree []"
  by (simp add: sepFree_def)

lemma sepFree_takeWhile: "inSegment P \<Longrightarrow> sepFree (takeWhile P s)"
  unfolding sepFree_def inSegment_def by (metis set_takeWhileD)

lemma takeWhile_sepLed:
  "inSegment P \<Longrightarrow> sepLed b \<Longrightarrow> takeWhile P (a @ b) = takeWhile P a"
  by (induction a) (auto simp: sepLed_def inSegment_def split: list.splits)

lemma dropWhile_sepLed:
  "inSegment P \<Longrightarrow> sepLed b \<Longrightarrow> dropWhile P (a @ b) = dropWhile P a @ b"
  by (induction a) (auto simp: sepLed_def inSegment_def split: list.splits)

lemma takeWhile_stable: "dropWhile P a \<noteq> [] \<Longrightarrow> takeWhile P (a @ x) = takeWhile P a"
  by (induction a) auto

lemma dropWhile_stable: "dropWhile P a \<noteq> [] \<Longrightarrow> dropWhile P (a @ x) = dropWhile P a @ x"
  by (induction a) auto

lemma prefix_sepLed:
  assumes "sepFree l" "sepLed b" "prefix l (a @ b)"
  shows "prefix l a"
proof -
  from assms(3) have "prefix l a \<or> (\<exists>us. l = a @ us \<and> prefix us b)"
    by (simp add: prefix_append)
  then show ?thesis
  proof
    assume "prefix l a"
    then show ?thesis .
  next
    assume "\<exists>us. l = a @ us \<and> prefix us b"
    then obtain us where l: "l = a @ us" and us: "prefix us b" by blast
    show ?thesis
    proof (cases us)
      case Nil
      with l show ?thesis by simp
    next
      case (Cons c cs)
      with us obtain bs where "b = c # bs"
        by (cases b) auto
      with assms(1,2) l Cons show ?thesis
        by (simp add: sepFree_def sepLed_def)
    qed
  qed
qed

lemma nice_rxLit: "sepFree l \<Longrightarrow> nice (rxLit l)"
  unfolding nice_def suffixing_def rxLocal_def rxStable_def
proof (intro conjI allI impI)
  fix s r
  assume "sepFree l" "rxLit l s = Some r"
  then show "\<exists>pre. s = pre @ r \<and> sepFree pre"
    by (auto simp: rxLit_def prefix_def split: if_splits)
next
  fix a b r
  assume l: "sepFree l" and h: "sepFree a \<and> sepLed b \<and> rxLit l (a @ b) = Some r"
  then have p: "prefix l (a @ b)" and r: "r = drop (length l) (a @ b)"
    by (auto simp: rxLit_def split: if_splits)
  have pa: "prefix l a"
    using l h p by (intro prefix_sepLed [of l b a]) simp_all
  then have "length l \<le> length a" by (rule prefix_length_le)
  with r pa show "\<exists>r'. r = r' @ b \<and> rxLit l a = Some r'"
    by (simp add: rxLit_def)
next
  fix a r x
  assume "rxLit l a = Some r \<and> r \<noteq> []"
  then show "rxLit l (a @ x) = Some (r @ x)"
    by (auto simp: rxLit_def prefix_def split: if_splits)
qed

lemma nice_rxPlus: "inSegment P \<Longrightarrow> nice (rxPlus P)"
  unfolding nice_def suffixing_def rxLocal_def rxStable_def
proof (intro conjI allI impI)
  fix s r
  assume "inSegment P" "rxPlus P s = Some r"
  then have "s = takeWhile P s @ r" "sepFree (takeWhile P s)"
    by (auto simp: rxPlus_def sepFree_takeWhile split: if_splits)
  then show "\<exists>pre. s = pre @ r \<and> sepFree pre" by blast
next
  fix a b r
  assume "inSegment P" "sepFree a \<and> sepLed b \<and> rxPlus P (a @ b) = Some r"
  then show "\<exists>r'. r = r' @ b \<and> rxPlus P a = Some r'"
    by (auto simp: rxPlus_def takeWhile_sepLed dropWhile_sepLed split: if_splits)
next
  fix a r x
  assume "rxPlus P a = Some r \<and> r \<noteq> []"
  then show "rxPlus P (a @ x) = Some (r @ x)"
    by (auto simp: rxPlus_def takeWhile_stable dropWhile_stable split: if_splits)
qed

lemma nice_rxStar: "inSegment P \<Longrightarrow> nice (rxStar P)"
  unfolding nice_def suffixing_def rxLocal_def rxStable_def
proof (intro conjI allI impI)
  fix s r
  assume "inSegment P" "rxStar P s = Some r"
  then have "s = takeWhile P s @ r" "sepFree (takeWhile P s)"
    by (auto simp: rxStar_def sepFree_takeWhile)
  then show "\<exists>pre. s = pre @ r \<and> sepFree pre" by blast
next
  fix a b r
  assume "inSegment P" "sepFree a \<and> sepLed b \<and> rxStar P (a @ b) = Some r"
  then show "\<exists>r'. r = r' @ b \<and> rxStar P a = Some r'"
    by (auto simp: rxStar_def dropWhile_sepLed)
next
  fix a r x
  assume "rxStar P a = Some r \<and> r \<noteq> []"
  then show "rxStar P (a @ x) = Some (r @ x)"
    by (auto simp: rxStar_def dropWhile_stable)
qed

lemma nice_rxOpt: "inSegment P \<Longrightarrow> nice (rxOpt P)"
  unfolding nice_def suffixing_def rxLocal_def rxStable_def
proof (intro conjI allI impI)
  fix s r
  assume "inSegment P" "rxOpt P s = Some r"
  then have "s = r \<or> (\<exists>c. s = [c] @ r \<and> \<not> isSep c)"
    by (auto simp: rxOpt_def inSegment_def split: list.splits if_splits)
  then show "\<exists>pre. s = pre @ r \<and> sepFree pre"
  proof
    assume "s = r"
    then have "s = [] @ r \<and> sepFree []" by simp
    then show ?thesis by blast
  next
    assume "\<exists>c. s = [c] @ r \<and> \<not> isSep c"
    then obtain c where "s = [c] @ r \<and> sepFree [c]" by (auto simp: sepFree_def)
    then show ?thesis by blast
  qed
next
  fix a b r
  assume "inSegment P" "sepFree a \<and> sepLed b \<and> rxOpt P (a @ b) = Some r"
  then show "\<exists>r'. r = r' @ b \<and> rxOpt P a = Some r'"
    by (cases a; cases b) (auto simp: rxOpt_def inSegment_def sepLed_def split: if_splits)
next
  fix a r x
  assume "rxOpt P a = Some r \<and> r \<noteq> []"
  then show "rxOpt P (a @ x) = Some (r @ x)"
    by (cases a) (auto simp: rxOpt_def split: if_splits)
qed

lemma suffixing_rxSeq: "\<forall>p\<in>set ps. nice p \<Longrightarrow> suffixing (rxSeq ps)"
proof (induction ps)
  case Nil
  show ?case
    unfolding suffixing_def
  proof (intro allI impI)
    fix s r :: string
    assume "rxSeq [] s = Some r"
    then have "s = [] @ r \<and> sepFree []" by simp
    then show "\<exists>pre. s = pre @ r \<and> sepFree pre" by blast
  qed
next
  case (Cons p ps)
  then have p: "suffixing p" and ps: "suffixing (rxSeq ps)"
    by (simp_all add: nice_def)
  show ?case
    unfolding suffixing_def
  proof (intro allI impI)
    fix s r
    assume "rxSeq (p # ps) s = Some r"
    then obtain r1 where 1: "p s = Some r1" and 2: "rxSeq ps r1 = Some r"
      by (auto split: option.splits)
    from p 1 obtain pre1 where "s = pre1 @ r1" "sepFree pre1"
      unfolding suffixing_def by blast
    moreover from ps 2 obtain pre2 where "r1 = pre2 @ r" "sepFree pre2"
      unfolding suffixing_def by blast
    ultimately have "s = (pre1 @ pre2) @ r \<and> sepFree (pre1 @ pre2)" by simp
    then show "\<exists>pre. s = pre @ r \<and> sepFree pre" by blast
  qed
qed

lemma rxLocal_rxSeq: "\<forall>p\<in>set ps. nice p \<Longrightarrow> rxLocal (rxSeq ps)"
proof (induction ps)
  case Nil
  show ?case by (simp add: rxLocal_def)
next
  case (Cons p ps)
  then have p: "suffixing p" "rxLocal p" and ps: "rxLocal (rxSeq ps)"
    by (simp_all add: nice_def)
  show ?case
    unfolding rxLocal_def
  proof (intro allI impI, elim conjE)
    fix a b r
    assume a: "sepFree a" and b: "sepLed b" and m: "rxSeq (p # ps) (a @ b) = Some r"
    from m obtain r1 where 1: "p (a @ b) = Some r1" and 2: "rxSeq ps r1 = Some r"
      by (auto split: option.splits)
    from p(2) a b 1 obtain r1' where r1: "r1 = r1' @ b" and pa: "p a = Some r1'"
      unfolding rxLocal_def by blast
    from p(1) pa obtain pre where "a = pre @ r1'"
      unfolding suffixing_def by blast
    with a have "sepFree r1'" by simp
    with ps b 2 r1 obtain r' where "r = r' @ b" "rxSeq ps r1' = Some r'"
      unfolding rxLocal_def by blast
    with pa show "\<exists>r'. r = r' @ b \<and> rxSeq (p # ps) a = Some r'"
      by simp
  qed
qed

lemma rxStable_rxSeq: "\<forall>p\<in>set ps. nice p \<Longrightarrow> rxStable (rxSeq ps)"
proof (induction ps)
  case Nil
  show ?case by (simp add: rxStable_def)
next
  case (Cons p ps)
  then have p: "rxStable p" and ps: "rxStable (rxSeq ps)" and all: "\<forall>p\<in>set ps. nice p"
    by (simp_all add: nice_def)
  show ?case
    unfolding rxStable_def
  proof (intro allI impI, elim conjE)
    fix a r x
    assume m: "rxSeq (p # ps) a = Some r" and r: "r \<noteq> []"
    from m obtain r1 where 1: "p a = Some r1" and 2: "rxSeq ps r1 = Some r"
      by (auto split: option.splits)
    from suffixing_rxSeq [OF all] 2 obtain pre where "r1 = pre @ r"
      unfolding suffixing_def by blast
    with r have "r1 \<noteq> []" by simp
    with p 1 have "p (a @ x) = Some (r1 @ x)"
      unfolding rxStable_def by blast
    moreover from ps 2 r have "rxSeq ps (r1 @ x) = Some (r @ x)"
      unfolding rxStable_def by blast
    ultimately show "rxSeq (p # ps) (a @ x) = Some (r @ x)"
      by simp
  qed
qed

lemma inSegment_classes:
  "inSegment isDigit" "inSegment isLower" "inSegment (\<lambda>c. \<not> isSep c)"
  by (auto simp: inSegment_def isDigit_def isLower_def isSep_def)

lemma sepFree_literals: "sepFree ''/s''" "sepFree ''x''" "sepFree ''_''" "sepFree ''-jpg''"
  by (simp_all add: sepFree_def isSep_def)

lemma nice_sizeHead: "\<forall>p\<in>set sizeHead. nice p"
  by (simp add: sizeHead_def nice_rxLit nice_rxPlus nice_rxOpt inSegment_classes
      sepFree_literals)

lemma nice_sizeSegment_pieces:
  "\<forall>p\<in>set (sizeHead @ [rxLit ''-jpg'', rxStar (\<lambda>c. \<not> isSep c)]). nice p"
  using nice_sizeHead
  by (simp add: nice_rxLit nice_rxStar inSegment_classes sepFree_literals)

lemma rxSeq_append:
  "rxSeq (ps @ qs) s = (case rxSeq ps s of None \<Rightarrow> None | Some r \<Rightarrow> rxSeq qs r)"
  by (induction ps arbitrary: s) (simp_all split: option.splits)

lemma sizeSegment_pieces:
  "sizeSegment = rxSeq (sizeHead @ [rxLit ''-jpg'', rxStar (\<lambda>c. \<not> isSep c)])"
  by (simp add: sizeSegment_def sizeHead_def)

lemma sizeSegment_split:
  "sizeSegment s =
     (case rxSeq sizeHead s of
        None \<Rightarrow> None
      | Some r7 \<Rightarrow>
          if prefix ''-jpg'' r7 then Some (dropWhile (\<lambda>c. \<not> isSep c) (drop (length ''-jpg'') r7)) else None)"
  by (simp add: sizeSegment_pieces rxSeq_append rxLit_def rxStar_def split: option.splits)

lemma sizeSegment_extend:
  assumes "sizeSegment a = Some r"
  shows "sizeSegment (a @ x) \<noteq> None"
proof -
  from assms obtain r7 where 1: "rxSeq sizeHead a = Some r7" and 2: "prefix ''-jpg'' r7"
    by (auto simp: sizeSegment_split split: option.splits if_splits)
  from 2 have "r7 \<noteq> []" by auto
  with 1 rxStable_rxSeq [OF nice_sizeHead] have "rxSeq sizeHead (a @ x) = Some (r7 @ x)"
    unfolding rxStable_def by blast
  moreover from 2 have "prefix ''-jpg'' (r7 @ x)"
    by (rule prefix_prefix)
  ultimately show ?thesis
    by (simp add: sizeSegment_split)
qed

lemma sizeSegment_restrict:
  assumes "sizeSegment (a @ b) = Some r" "sepFree a" "sepLed b"
  shows "sizeSegment a \<noteq> None"
  using assms rxLocal_rxSeq [OF nice_sizeSegment_pieces]
  unfolding rxLocal_def sizeSegment_pieces by fastforce

lemma sizeSegment_slash: "sizeSegment (c # t) = Some r \<Longrightarrow> c = CHR ''/''"
  by (auto simp: sizeSegment_def rxLit_def split: option.splits if_splits)

lemma sizeSegment_Nil [simp]: "sizeSegment [] = None"
  by (simp add: sizeSegment_def rxLit_def)

lemma cutter_pathMatch: "cutter pathMatch"
  unfolding cutter_def
proof (intro allI impI)
  fix s r n
  assume "pathMatch s = Some (r, n)"
  then obtain rest where m: "sizeSegment s = Some rest" and r: "r = []"
    and n: "n = length s - length rest - 1"
    by (auto simp: pathMatch_def split: option.splits)
  from m obtain r7 where 1: "rxSeq sizeHead s = Some r7" and 2: "prefix ''-jpg'' r7"
    and rest: "rest = dropWhile (\<lambda>c. \<not> isSep c) (drop (length ''-jpg'') r7)"
    by (auto simp: sizeSegment_split split: option.splits if_splits)
  from 2 have "4 \<le> length r7"
    using prefix_length_le by fastforce
  moreover have "length rest \<le> length (drop (length ''-jpg'') r7)"
    unfolding rest by (rule length_dropWhile_le)
  ultimately have "length rest < length r7" by simp
  moreover from suffixing_rxSeq [OF nice_sizeHead] 1 have "length r7 \<le> length s"
    unfolding suffixing_def by fastforce
  ultimately have lt: "length rest < length s" by simp
  from suffixing_rxSeq [OF nice_sizeSegment_pieces] m obtain pre where s: "s = pre @ rest"
    unfolding suffixing_def sizeSegment_pieces by blast
  have "Suc n = length pre"
    using n lt s by simp
  then have "drop (Suc n) s = rest"
    using s by simp
  moreover have "sepLed rest"
    unfolding rest by (rule sepLed_dropWhile_seg)
  ultimately show "r = [] \<and> n < length s \<and> sepLed (drop (Suc n) s)"
    using r n lt by simp
qed

lemma seg_dropWhile: "seg t @ dropWhile (\<lambda>c. \<not> isSep c) t = t"
  by (simp add: seg_def)

lemma sepFree_seg: "sepFree (seg t)"
  unfolding seg_def by (rule sepFree_takeWhile) (rule inSegment_classes)

lemma headLocal_pathMatch: "headLocal pathMatch"
  unfolding headLocal_def
proof (intro allI impI, elim conjE)
  fix c t t'
  assume p: "prefix (seg t') (seg t)" and m: "pathMatch (c # t) = None"
  show "pathMatch (c # t') = None"
  proof (rule ccontr)
    assume "pathMatch (c # t') \<noteq> None"
    then obtain r where r: "sizeSegment (c # t') = Some r"
      by (auto simp: pathMatch_def split: option.splits)
    then have c: "\<not> isSep c"
      using sizeSegment_slash [OF r] by (simp add: isSep_def)
    have "sizeSegment ((c # seg t') @ dropWhile (\<lambda>c. \<not> isSep c) t') = Some r"
      using r by (simp add: seg_dropWhile)
    then have "sizeSegment (c # seg t') \<noteq> None"
      using c sepFree_seg [of t'] sepLed_dropWhile_seg [of t']
      by (intro sizeSegment_restrict [of "c # seg t'" "dropWhile (\<lambda>c. \<not> isSep c) t'" r])
         (simp_all add: sepFree_def)
    then obtain r' where r': "sizeSegment (c # seg t') = Some r'" by blast
    from p obtain y where y: "seg t = seg t' @ y" by (auto simp: prefix_def)
    have "c # t = (c # seg t') @ (y @ dropWhile (\<lambda>c. \<not> isSep c) t)"
      using seg_dropWhile [of t] y by simp
    then have "sizeSegment (c # t) \<noteq> None"
      using sizeSegment_extend [OF r'] by metis
    with m show False
      by (auto simp: pathMatch_def split: option.splits)
  qed
qed

lemma sepBlind_pathMatch: "sepBlind pathMatch"
  unfolding sepBlind_def
proof (intro allI impI, elim conjE)
  fix c c' t
  assume "isSep c'"
  then have "sizeSegment (c' # t) = None"
    using sizeSegment_slash [of c' t] by (cases "sizeSegment (c' # t)") (auto simp: isSep_def)
  then show "pathMatch (c' # t) = None"
    by (simp add: pathMatch_def)
qed

subsection \<open>Normalising the separators\<close>

lemma normSeps_seg: "seg (normSeps first s) = seg s"
  by (induction first s rule: normSeps.induct) (simp_all add: seg_Cons isSep_def)

lemma sep_run_last:
  assumes "isSep c"
  shows "\<exists>pre c0. c # t = pre @ c0 # dropWhile isSep t \<and> isSep c0"
proof -
  let ?w = "c # takeWhile isSep t"
  have w: "c # t = ?w @ dropWhile isSep t" by simp
  have "?w = butlast ?w @ [last ?w]"
    by (rule append_butlast_last_id [symmetric]) simp
  with w have "c # t = butlast ?w @ last ?w # dropWhile isSep t"
    by (metis append.assoc append_Cons append_Nil)
  moreover have "last ?w \<in> set ?w"
    by (rule last_in_set) simp
  then have "isSep (last ?w)"
    using assms by (auto dest: set_takeWhileD)
  ultimately show ?thesis by blast
qed

lemma normSeps_keeps_nohit:
  "headLocal m \<Longrightarrow> sepBlind m \<Longrightarrow> nohit m s \<Longrightarrow> nohit m (normSeps first s)"
proof (induction first s rule: normSeps.induct)
  case (1 first)
  then show ?case by simp
next
  case (2 first c t)
  from 2(5) have mc: "m (c # t) = None" and t: "nohit m t" by simp_all
  show ?case
  proof (cases "isSep c")
    case True
    let ?u = "dropWhile isSep t"
    let ?c = "if first then CHR ''?'' else CHR ''&''"
    from sep_run_last [OF True, of t] obtain pre c0
      where "c # t = pre @ c0 # ?u" and c0: "isSep c0" by blast
    with 2(5) have "m (c0 # ?u) = None"
      using nohit_append_Cons [of m pre c0 ?u] by simp
    moreover have "isSep ?c" by (simp add: isSep_def)
    ultimately have "m (?c # ?u) = None"
      using 2(4) c0 unfolding sepBlind_def by blast
    then have "m (?c # normSeps False ?u) = None"
      using 2(3) normSeps_seg [of False ?u] unfolding headLocal_def
      by (metis prefix_order.refl)
    moreover have "nohit m (normSeps False ?u)"
      using 2(1) [OF True 2(3) 2(4) nohit_dropWhile [OF t]] .
    ultimately show ?thesis using True by simp
  next
    case False
    have "m (c # normSeps False t) = None"
      using 2(3) mc normSeps_seg [of False t] unfolding headLocal_def
      by (metis prefix_order.refl)
    moreover have "nohit m (normSeps False t)"
      using 2(2) [OF False 2(3) 2(4) t] .
    ultimately show ?thesis using False by simp
  qed
qed

lemma normSeps_not_sepLed:
  "\<not> (\<exists>c r. u = c # r \<and> isSep c) \<Longrightarrow> dropWhile isSep (normSeps False u) = normSeps False u"
  by (cases u) simp_all

lemma dropWhile_not_sep: "\<not> (\<exists>c r. dropWhile isSep t = c # r \<and> isSep c)"
  using hd_dropWhile [of isSep t] by (cases "dropWhile isSep t") force+

lemma normSeps_idem: "normSeps first (normSeps first s) = normSeps first s"
proof (induction first s rule: normSeps.induct)
  case (1 first)
  then show ?case by simp
next
  case (2 first c t)
  show ?case
  proof (cases "isSep c")
    case True
    let ?u = "dropWhile isSep t"
    have "dropWhile isSep (normSeps False ?u) = normSeps False ?u"
      using dropWhile_not_sep by (rule normSeps_not_sepLed)
    with 2(1) [OF True] True show ?thesis
      by (simp add: isSep_def)
  next
    case False
    with 2(2) show ?thesis by simp
  qed
qed

lemma normSeps_no_question: "\<not> first \<Longrightarrow> CHR ''?'' \<notin> set (normSeps first s)"
  by (induction first s rule: normSeps.induct) (auto simp: isSep_def)

lemma dropTrailingQuestion_normSeps:
  "dropTrailingQuestion (normSeps True s) = [] \<or>
   dropTrailingQuestion (normSeps True s) = normSeps True s"
proof (cases s)
  case Nil
  then show ?thesis by (simp add: dropTrailingQuestion_def)
next
  case (Cons c t)
  then obtain c' r where o: "normSeps True s = c' # r" and r: "r = normSeps False (dropWhile isSep t) \<or> r = normSeps False t"
    by (cases "isSep c") simp_all
  from r have q: "CHR ''?'' \<notin> set r"
    using normSeps_no_question [of False] by auto
  show ?thesis
  proof (cases "r = []")
    case True
    with o show ?thesis by (simp add: dropTrailingQuestion_def)
  next
    case False
    then have "last (c' # r) \<in> set r" by simp
    with q have "last (c' # r) \<noteq> CHR ''?''" by metis
    with o show ?thesis by (simp add: dropTrailingQuestion_def)
  qed
qed

subsection \<open>The whole block\<close>

lemma fold_params_nohit:
  "\<forall>k\<in>set ks. sepFree k \<Longrightarrow> sepFree key \<Longrightarrow> key \<in> set ks \<or> nohit (paramMatch key) s \<Longrightarrow>
   nohit (paramMatch key) (fold (\<lambda>key. gsub (paramMatch key)) ks s)"
proof (induction ks arbitrary: s)
  case Nil
  then show ?case by simp
next
  case (Cons k ks)
  have "key \<in> set ks \<or> nohit (paramMatch key) (gsub (paramMatch k) s)"
  proof (cases "key = k")
    case True
    then show ?thesis
      using gsub_nohit [OF cutter_paramMatch headLocal_paramMatch [OF Cons(3)]] by simp
  next
    case False
    show ?thesis
    proof (cases "key \<in> set ks")
      case True
      then show ?thesis by simp
    next
      case notin: False
      with False Cons(4) have "nohit (paramMatch key) s" by simp
      then show ?thesis
        using gsub_keeps_nohit [OF cutter_paramMatch headLocal_paramMatch [OF Cons(3)]] by simp
    qed
  qed
  with Cons show ?case by simp
qed

lemma stripCore_nohit_param:
  assumes "key \<in> set sizeParams"
  shows "nohit (paramMatch key) (stripCore u)"
proof -
  have k: "sepFree key" using assms by (rule sepFree_sizeParams)
  have "nohit (paramMatch key) (fold (\<lambda>key. gsub (paramMatch key)) sizeParams u)"
    using assms k sepFree_sizeParams by (intro fold_params_nohit) simp_all
  then have "nohit (paramMatch key)
      (gsub pathMatch (fold (\<lambda>key. gsub (paramMatch key)) sizeParams u))"
    by (rule gsub_keeps_nohit [OF cutter_pathMatch headLocal_paramMatch [OF k]])
  then show ?thesis
    unfolding stripCore_def
    by (rule normSeps_keeps_nohit [OF headLocal_paramMatch [OF k] sepBlind_paramMatch])
qed

lemma stripCore_nohit_path: "nohit pathMatch (stripCore u)"
  unfolding stripCore_def
  by (intro normSeps_keeps_nohit headLocal_pathMatch sepBlind_pathMatch gsub_nohit
      cutter_pathMatch)

lemma fold_params_id:
  "\<forall>k\<in>set ks. nohit (paramMatch k) s \<Longrightarrow> fold (\<lambda>key. gsub (paramMatch key)) ks s = s"
  by (induction ks) (simp_all add: nohit_gsub_id)

lemma stripCore_fixed: "stripCore (stripCore u) = stripCore u"
proof -
  let ?o = "stripCore u"
  have "fold (\<lambda>key. gsub (paramMatch key)) sizeParams ?o = ?o"
    by (rule fold_params_id) (simp add: stripCore_nohit_param)
  moreover have "gsub pathMatch ?o = ?o"
    using stripCore_nohit_path by (rule nohit_gsub_id)
  moreover have "normSeps True ?o = ?o"
    unfolding stripCore_def by (rule normSeps_idem)
  ultimately show ?thesis
    by (simp add: stripCore_def [of ?o])
qed

lemma stripSizeConstraints_idem:
  "stripSizeConstraints (stripSizeConstraints u) = stripSizeConstraints u"
proof (cases "stripSizeConstraints u = []")
  case True
  then show ?thesis by (simp add: stripSizeConstraints_def)
next
  case False
  then have u: "u \<noteq> []" and f: "stripSizeConstraints u = dropTrailingQuestion (stripCore u)"
    by (auto simp: stripSizeConstraints_def stripCore_def split: if_splits)
  with False dropTrailingQuestion_normSeps [of "gsub pathMatch (fold (\<lambda>key. gsub (paramMatch key)) sizeParams u)"]
  have d: "dropTrailingQuestion (stripCore u) = stripCore u"
    by (simp add: stripCore_def)
  with f have e: "stripSizeConstraints u = stripCore u" by simp
  have "stripSizeConstraints (stripCore u) = dropTrailingQuestion (stripCore (stripCore u))"
    using False e by (simp add: stripSizeConstraints_def stripCore_def)
  also have "\<dots> = stripCore u"
    using d by (simp add: stripCore_fixed)
  finally show ?thesis using e by simp
qed

section \<open>Two captions\<close>

lemma decodeHtmlEntities_amp_amp: "decodeHtmlEntities ''&amp;amp;'' = ''&amp;''"
  by code_simp

lemma decodeHtmlEntities_amp: "decodeHtmlEntities ''&amp;'' = ''&''"
  by code_simp

section \<open>The selection loops find the first maximum\<close>

lemma bestResourceLoop_step:
  "0 \<le> m \<Longrightarrow>
   bestResourceLoop (r # rest) m b =
     (if truthyStr (src r) \<and> m < area r then bestResourceLoop rest (area r) (Some r)
      else bestResourceLoop rest m b)"
  by (auto simp: area_def truthyNum_def split: option.splits)

lemma bestResourceLoop_none:
  "0 \<le> m \<Longrightarrow> \<forall>r\<in>set rs. \<not> (truthyStr (src r) \<and> m < area r) \<Longrightarrow>
   bestResourceLoop rs m b = b"
proof (induction rs)
  case Nil
  then show ?case by simp
next
  case (Cons r rs)
  then have "bestResourceLoop (r # rs) m b = bestResourceLoop rs m b"
    by (subst bestResourceLoop_step) auto
  with Cons show ?case by auto
qed

lemma bestResourceLoop_first_max:
  "0 \<le> m \<Longrightarrow> \<exists>r\<in>set rs. truthyStr (src r) \<and> m < area r \<Longrightarrow>
   \<exists>pre x post. rs = pre @ x # post \<and> bestResourceLoop rs m b = Some x \<and>
     truthyStr (src x) \<and> m < area x \<and>
     (\<forall>r\<in>set pre. truthyStr (src r) \<longrightarrow> area r < area x) \<and>
     (\<forall>r\<in>set post. truthyStr (src r) \<longrightarrow> area r \<le> area x)"
proof (induction rs arbitrary: m b)
  case Nil
  then show ?case by simp
next
  case (Cons r rs)
  show ?case
  proof (cases "truthyStr (src r) \<and> m < area r")
    case True
    then have step: "bestResourceLoop (r # rs) m b = bestResourceLoop rs (area r) (Some r)"
      using Cons.prems(1) by (simp only: bestResourceLoop_step) simp
    have pos: "0 \<le> area r" using True Cons.prems(1) by simp
    show ?thesis
    proof (cases "\<exists>r'\<in>set rs. truthyStr (src r') \<and> area r < area r'")
      case later: True
      from Cons.IH [OF pos later, of "Some r"] obtain pre x post
        where d: "rs = pre @ x # post" "bestResourceLoop rs (area r) (Some r) = Some x"
          "truthyStr (src x)" "area r < area x"
          "\<forall>r\<in>set pre. truthyStr (src r) \<longrightarrow> area r < area x"
          "\<forall>r\<in>set post. truthyStr (src r) \<longrightarrow> area r \<le> area x"
        by blast
      have "r # rs = (r # pre) @ x # post \<and> bestResourceLoop (r # rs) m b = Some x \<and>
          truthyStr (src x) \<and> m < area x \<and>
          (\<forall>r\<in>set (r # pre). truthyStr (src r) \<longrightarrow> area r < area x) \<and>
          (\<forall>r\<in>set post. truthyStr (src r) \<longrightarrow> area r \<le> area x)"
        using d True step by auto
      then show ?thesis by blast
    next
      case none: False
      then have "bestResourceLoop rs (area r) (Some r) = Some r"
        using pos by (intro bestResourceLoop_none) auto
      with step True none
      have "r # rs = [] @ r # rs \<and> bestResourceLoop (r # rs) m b = Some r \<and>
          truthyStr (src r) \<and> m < area r \<and>
          (\<forall>r'\<in>set []. truthyStr (src r') \<longrightarrow> area r' < area r) \<and>
          (\<forall>r'\<in>set rs. truthyStr (src r') \<longrightarrow> area r' \<le> area r)"
        by (auto simp: not_less)
      then show ?thesis by blast
    qed
  next
    case False
    then have step: "bestResourceLoop (r # rs) m b = bestResourceLoop rs m b"
      using Cons.prems(1) by (simp only: bestResourceLoop_step) simp
    from False Cons.prems(2) have "\<exists>r\<in>set rs. truthyStr (src r) \<and> m < area r"
      by auto
    from Cons.IH [OF Cons.prems(1) this, of b] obtain pre x post
      where d: "rs = pre @ x # post" "bestResourceLoop rs m b = Some x"
        "truthyStr (src x)" "m < area x"
        "\<forall>r\<in>set pre. truthyStr (src r) \<longrightarrow> area r < area x"
        "\<forall>r\<in>set post. truthyStr (src r) \<longrightarrow> area r \<le> area x"
      by blast
    have "r # rs = (r # pre) @ x # post \<and> bestResourceLoop (r # rs) m b = Some x \<and>
        truthyStr (src x) \<and> m < area x \<and>
        (\<forall>r\<in>set (r # pre). truthyStr (src r) \<longrightarrow> area r < area x) \<and>
        (\<forall>r\<in>set post. truthyStr (src r) \<longrightarrow> area r \<le> area x)"
      using d False step by auto
    then show ?thesis by blast
  qed
qed

lemma bestUrlLoop_none:
  "\<forall>(u, w, h)\<in>set ms. \<not> m < w * h \<Longrightarrow> bestUrlLoop ms m b = b"
  by (induction ms m b rule: bestUrlLoop.induct) auto

lemma bestUrlLoop_first_max:
  "\<exists>(u, w, h)\<in>set ms. m < w * h \<Longrightarrow>
   \<exists>pre u w h post. ms = pre @ (u, w, h) # post \<and> bestUrlLoop ms m b = Some u \<and>
     m < w * h \<and>
     (\<forall>(u', w', h')\<in>set pre. w' * h' < w * h) \<and>
     (\<forall>(u', w', h')\<in>set post. w' * h' \<le> w * h)"
proof (induction ms m b rule: bestUrlLoop.induct)
  case (1 m b)
  then show ?case by simp
next
  case (2 url width height rest m b)
  show ?case
  proof (cases "m < width * height")
    case True
    then have step: "bestUrlLoop ((url, width, height) # rest) m b
        = bestUrlLoop rest (width * height) (Some url)"
      by simp
    show ?thesis
    proof (cases "\<exists>(u, w, h)\<in>set rest. width * height < w * h")
      case later: True
      from 2(1) [OF True later] obtain pre u w h post
        where d: "rest = pre @ (u, w, h) # post"
          "bestUrlLoop rest (width * height) (Some url) = Some u"
          "width * height < w * h"
          "\<forall>(u', w', h')\<in>set pre. w' * h' < w * h"
          "\<forall>(u', w', h')\<in>set post. w' * h' \<le> w * h"
        by blast
      have "(url, width, height) # rest = ((url, width, height) # pre) @ (u, w, h) # post \<and>
          bestUrlLoop ((url, width, height) # rest) m b = Some u \<and> m < w * h \<and>
          (\<forall>(u', w', h')\<in>set ((url, width, height) # pre). w' * h' < w * h) \<and>
          (\<forall>(u', w', h')\<in>set post. w' * h' \<le> w * h)"
        using d True step by auto
      then show ?thesis by blast
    next
      case none: False
      then have "bestUrlLoop rest (width * height) (Some url) = Some url"
        by (intro bestUrlLoop_none) auto
      with step True none
      have "(url, width, height) # rest = [] @ (url, width, height) # rest \<and>
          bestUrlLoop ((url, width, height) # rest) m b = Some url \<and> m < width * height \<and>
          (\<forall>(u', w', h')\<in>set []. w' * h' < width * height) \<and>
          (\<forall>(u', w', h')\<in>set rest. w' * h' \<le> width * height)"
        by (auto simp: not_less)
      then show ?thesis by blast
    qed
  next
    case False
    then have step: "bestUrlLoop ((url, width, height) # rest) m b = bestUrlLoop rest m b"
      by simp
    from False 2(3) have "\<exists>(u, w, h)\<in>set rest. m < w * h"
      by auto
    from 2(2) [OF False this] obtain pre u w h post
      where d: "rest = pre @ (u, w, h) # post" "bestUrlLoop rest m b = Some u" "m < w * h"
        "\<forall>(u', w', h')\<in>set pre. w' * h' < w * h"
        "\<forall>(u', w', h')\<in>set post. w' * h' \<le> w * h"
      by blast
    have "(url, width, height) # rest = ((url, width, height) # pre) @ (u, w, h) # post \<and>
        bestUrlLoop ((url, width, height) # rest) m b = Some u \<and> m < w * h \<and>
        (\<forall>(u', w', h')\<in>set ((url, width, height) # pre). w' * h' < w * h) \<and>
        (\<forall>(u', w', h')\<in>set post. w' * h' \<le> w * h)"
      using d False step by auto
    then show ?thesis by blast
  qed
qed

lemma resourceUrl_b: "decodeUrlEntities (unescapeUrl ''b'') = ''b''"
  by code_simp

section \<open>The inline-field scan\<close>

lemma rsearch_Some: "rsearch m s = Some v \<Longrightarrow> \<exists>t. m t = Some v"
  by (induction s) (auto split: option.splits)

lemma capQuoted_not_Nil: "capQuoted pre s = Some v \<Longrightarrow> v \<noteq> []"
  by (auto simp: capQuoted_def Let_def split: if_splits list.splits)

lemma videoUrlMatch_not_Nil: "videoUrlMatch html = Some v \<Longrightarrow> v \<noteq> []"
  unfolding videoUrlMatch_def
  by (auto split: option.splits dest!: rsearch_Some capQuoted_not_Nil)

lemma gsub_not_Nil:
  assumes "\<And>t r n. m t = Some (r, n) \<Longrightarrow> r \<noteq> []" and "s \<noteq> []"
  shows "gsub m s \<noteq> []"
proof (cases s)
  case Nil
  with assms(2) show ?thesis by simp
next
  case (Cons c t)
  show ?thesis
  proof (cases "m (c # t)")
    case None
    with Cons show ?thesis by simp
  next
    case (Some a)
    obtain r n where "a = (r, n)" by (cases a)
    with Some assms(1) [of "c # t" r n] Cons show ?thesis by simp
  qed
qed

lemma gsub_lit_not_Nil: "rep \<noteq> [] \<Longrightarrow> s \<noteq> [] \<Longrightarrow> gsub (lit pat rep) s \<noteq> []"
  by (rule gsub_not_Nil) (auto simp: lit_def split: if_splits)

lemma gsub_lit_i_not_Nil: "rep \<noteq> [] \<Longrightarrow> s \<noteq> [] \<Longrightarrow> gsub (lit_i pat rep) s \<noteq> []"
  by (rule gsub_not_Nil) (auto simp: lit_i_def split: if_splits)

lemma unescapeUrl_not_Nil: "s \<noteq> [] \<Longrightarrow> unescapeUrl s \<noteq> []"
  by (simp add: unescapeUrl_def unescapeThumb_def gsub_lit_not_Nil)

lemma fold_gsub_not_Nil:
  "\<forall>(pat, rep)\<in>set tbl. rep \<noteq> [] \<Longrightarrow> s \<noteq> [] \<Longrightarrow>
   fold (\<lambda>(pat, rep). gsub (lit_i pat rep)) tbl s \<noteq> []"
  by (induction tbl arbitrary: s) (auto simp: gsub_lit_i_not_Nil)

lemma decodePass_not_Nil: "s \<noteq> [] \<Longrightarrow> decodePass s \<noteq> []"
  unfolding decodePass_def
  by (rule fold_gsub_not_Nil) (simp_all add: urlEntities_def)

lemma decodeLoop_not_Nil: "decoded \<noteq> [] \<Longrightarrow> decodeLoop decoded previous \<noteq> []"
proof (induction decoded previous rule: decodeLoop.induct)
  case (1 decoded previous)
  show ?case
  proof (cases "decoded = previous")
    case True
    with 1(2) show ?thesis by (subst decodeLoop.simps) simp
  next
    case False
    with 1 show ?thesis
      by (subst decodeLoop.simps) (simp add: decodePass_not_Nil)
  qed
qed

lemma decodeUrlEntities_not_Nil: "s \<noteq> [] \<Longrightarrow> decodeUrlEntities s \<noteq> []"
  by (simp add: decodeUrlEntities_def decodeLoop_not_Nil)

lemma inlineFieldScan_video:
  assumes v: "videoUrlMatch html = Some v"
    and ts: "\<forall>ds. timestampMatch html = Some ds \<longrightarrow> parseInt 10 ds \<le> 8640000000000"
  shows "\<exists>r. inlineFieldScan fmt resources html = Inr (Some r) \<and> mediaType r = Video \<and>
           mediaUrl r = decodeUrlEntities (unescapeUrl v)"
proof -
  have ne: "decodeUrlEntities (unescapeUrl v) \<noteq> []"
    using videoUrlMatch_not_Nil [OF v] by (intro decodeUrlEntities_not_Nil unescapeUrl_not_Nil)
  have j: "jsOr (Some v) x = v" for x
    using videoUrlMatch_not_Nil [OF v] by (simp add: jsOr_def)
  show ?thesis
  proof (cases "timestampMatch html")
    case None
    with v ne j show ?thesis
      by (simp add: inlineFieldScan_def Let_def)
  next
    case (Some ds)
    with ts have "parseInt 10 ds * 1000 \<le> 8640000000000000" by simp
    with Some v ne j show ?thesis
      by (simp add: inlineFieldScan_def Let_def toISOString_def)
  qed
qed

lemma inlineFieldScan_image:
  assumes v: "videoUrlMatch html = None"
    and r: "inlineFieldScan fmt resources html = Inr (Some r)"
  shows "mediaType r = Image \<and>
         mediaUrl r = stripSizeConstraints
           (if truthyStr (highQualityImageUrl resources html)
            then decodeUrlEntities (jsOr (highQualityImageUrl resources html) [])
            else decodeUrlEntities (unescapeUrl (jsOr (displayUrlMatch html) [])))"
  using r v
  by (auto simp: inlineFieldScan_def Let_def jsOr_def split: if_splits option.splits sum.splits)

section \<open>The inline-field scan on the example pages\<close>

lemma inlineFieldScan_range_error:
  assumes v: "videoUrlMatch html = Some v"
    and ts: "timestampMatch html = Some ds" "8640000000000 < parseInt 10 ds"
  shows "inlineFieldScan fmt resources html = Inl RangeError"
proof -
  have ne: "decodeUrlEntities (unescapeUrl v) \<noteq> []"
    using videoUrlMatch_not_Nil [OF v] by (intro decodeUrlEntities_not_Nil unescapeUrl_not_Nil)
  have j: "jsOr (Some v) x = v" for x
    using videoUrlMatch_not_Nil [OF v] by (simp add: jsOr_def)
  from ts(2) have "\<not> parseInt 10 ds * 1000 \<le> 8640000000000000" by simp
  with ts(1) v ne j show ?thesis
    by (simp add: inlineFieldScan_def Let_def toISOString_def)
qed

lemma videoPage_video: "videoUrlMatch videoPage = Some ''v?stp=1''"
  by code_simp

lemma videoPage_display: "displayUrlMatch videoPage = Some ''d''"
  by code_simp

lemma videoPage_timestamp: "timestampMatch videoPage = None"
  by code_simp

lemma videoPage_url: "decodeUrlEntities (unescapeUrl ''v?stp=1'') = ''v?stp=1''"
  by code_simp

lemma farFuturePage_video: "videoUrlMatch farFuturePage = Some ''v?stp=1''"
  by code_simp

lemma farFuturePage_display: "displayUrlMatch farFuturePage = Some ''d''"
  by code_simp

lemma farFuturePage_timestamp: "timestampMatch farFuturePage = Some ''99999999999999''"
  by code_simp

lemma parseInt_far_future: "parseInt 10 ''99999999999999'' = 99999999999999"
  by (simp add: parseInt_def digitVal_def isDigit_def)

section \<open>The script-tag scan\<close>

lemma scanCandidates_skips:
  "\<forall>c\<in>set bad. parse c = None \<Longrightarrow>
   scanCandidates parse extract (bad @ rest) postData = scanCandidates parse extract rest postData"
  by (induction bad) simp_all

lemma scanCandidates_finds:
  assumes "\<forall>c\<in>set bad. \<forall>j. parse c = Some j \<longrightarrow> \<not> hasMedia (extract j)"
    "parse good = Some d" "extract d = Some r" "mediaUrl r \<noteq> []"
  shows "scanCandidates parse extract (bad @ good # rest) postData = Some r"
  using assms
proof (induction bad arbitrary: postData)
  case Nil
  then show ?case by (simp add: hasMedia_def)
next
  case (Cons c bad)
  then show ?case by (cases "parse c") (simp_all add: Let_def)
qed

lemma scanCandidates_no_media:
  "\<not> hasMedia postData \<Longrightarrow>
   \<forall>c\<in>set cs. \<forall>j. parse c = Some j \<longrightarrow> \<not> hasMedia (extract j) \<Longrightarrow>
   \<not> hasMedia (scanCandidates parse extract cs postData)"
proof (induction cs arbitrary: postData)
  case Nil
  then show ?case by simp
next
  case (Cons c cs)
  then show ?case by (cases "parse c") (simp_all add: Let_def)
qed

lemma scanScripts_finds:
  assumes "\<not> hasMedia postData"
    "\<forall>s\<in>set before. includes_str s ''video_url'' \<or> includes_str s ''display_url'' \<longrightarrow>
       (\<forall>c\<in>set (jsonCandidates s). \<forall>j. parse c = Some j \<longrightarrow> \<not> hasMedia (extract j))"
    "includes_str scriptContent ''video_url'' \<or> includes_str scriptContent ''display_url''"
    "jsonCandidates scriptContent = bad @ good # rest"
    "\<forall>c\<in>set bad. \<forall>j. parse c = Some j \<longrightarrow> \<not> hasMedia (extract j)"
    "parse good = Some d" "extract d = Some r" "mediaUrl r \<noteq> []"
  shows "scanScripts parse extract (before @ scriptContent # after) postData = Some r"
  using assms(1,2)
proof (induction before arbitrary: postData)
  case Nil
  from assms(3-8) show ?case
    by (simp add: scanCandidates_finds hasMedia_def)
next
  case (Cons s before)
  show ?case
  proof (cases "includes_str s ''video_url'' \<or> includes_str s ''display_url''")
    case True
    with Cons.prems
    have n: "\<not> hasMedia (scanCandidates parse extract (jsonCandidates s) postData)"
      by (intro scanCandidates_no_media) auto
    from Cons.prems(2)
    have "scanScripts parse extract (before @ scriptContent # after)
            (scanCandidates parse extract (jsonCandidates s) postData) = Some r"
      by (intro Cons.IH [OF n]) simp
    with True n show ?thesis
      by (simp add: Let_def)
  next
    case False
    from Cons.prems
    have "scanScripts parse extract (before @ scriptContent # after) postData = Some r"
      by (intro Cons.IH) simp_all
    with False show ?thesis
      by simp
  qed
qed

lemma scanScripts_malformed:
  "\<forall>s\<in>set scripts. includes_str s ''video_url'' \<or> includes_str s ''display_url'' \<longrightarrow>
     (\<forall>c\<in>set (jsonCandidates s). parse c = None) \<Longrightarrow>
   scanScripts parse extract scripts postData = postData"
proof (induction scripts)
  case Nil
  then show ?case by simp
next
  case (Cons s scripts)
  show ?case
  proof (cases "includes_str s ''video_url'' \<or> includes_str s ''display_url''")
    case True
    with Cons.prems have "\<forall>c\<in>set (jsonCandidates s). parse c = None"
      by auto
    from scanCandidates_skips [OF this, of "extract" "[]" postData]
    have "scanCandidates parse extract (jsonCandidates s) postData = postData"
      by simp
    with True Cons show ?thesis
      by (simp add: Let_def)
  next
    case False
    with Cons show ?thesis
      by simp
  qed
qed

lemma laterStrategies_after_scan:
  "\<not> hasMedia postData \<Longrightarrow>
   scanScripts parse extract (scriptBodies html) postData = pd2 \<Longrightarrow>
   laterStrategies parse extract jsonLdBlock sharedDataBlock parseMetaTags html postData =
     (let pd3 = (if hasMedia pd2 then pd2 else jsonLdBlock html pd2);
          pd4 = (if hasMedia pd3 then pd3 else sharedDataBlock html pd3)
      in if hasMedia pd4 then pd4 else parseMetaTags html)"
  by (simp add: laterStrategies_def Let_def)

lemma scriptPage_bodies: "scriptBodies scriptPage = [goodScript]"
  by code_simp

lemma scriptPage_marker: "includes_str goodScript ''video_url''"
  by code_simp

lemma scriptPage_candidates:
  "jsonCandidates goodScript = [''{video_url}'', goodFragment]"
  by code_simp

lemma parseGoodOnly_bad: "parseGoodOnly ''{video_url}'' = None"
  by code_simp

lemma twoScriptPage_bodies:
  "scriptBodies twoScriptPage = [''{display_url}'', goodScript]"
  by code_simp

lemma metaPage_bodies: "scriptBodies metaPage = [''{display_url}'']"
  by code_simp

lemma malformed_candidates: "jsonCandidates ''{display_url}'' = [''{display_url}'']"
  by code_simp

lemma parseGoodOnly_bad2: "parseGoodOnly ''{display_url}'' = None"
  by code_simp

lemma deepPage_bodies: "scriptBodies deepPage = [deepScript]"
  by code_simp

lemma deepPage_marker: "includes_str deepScript ''video_url''"
  by code_simp

lemma deepPage_candidates:
  "jsonCandidates deepScript = [''{video_url}'', innerFragment]"
  by code_simp

lemma deepFragment_no_candidate: "jsonAt deepFragment = None"
  by code_simp

lemma parseDeep_values:
  "parseDeep ''{video_url}'' = None" "parseDeep innerFragment = Some False"
  "parseDeep deepFragment = Some True"
  by code_simp+

lemma deepPage_inline:
  "videoUrlMatch deepPage = None" "displayUrlMatch deepPage = None"
  by code_simp+

section \<open>The muxer and the browser\<close>

lemma downloadFile_browser:
  "downloadFile e url path w = (res, w') \<Longrightarrow>
   browser w' = browser w \<and> closeCalls w' = closeCalls w"
  by (auto simp: downloadFile_def Let_def split: if_splits)

lemma mergeVideoAudio_browser:
  "mergeVideoAudio e v a u w = (res, w') \<Longrightarrow>
   browser w' = browser w \<and> closeCalls w' = closeCalls w"
  by (auto simp: mergeVideoAudio_def Let_def split: if_splits prod.splits sum.splits
      dest!: downloadFile_browser)

lemma processCapture_browser:
  "processCapture e url w = (res, w') \<Longrightarrow>
   browser w' = browser w \<and> closeCalls w' = closeCalls w"
  by (auto simp: processCapture_def Let_def split: if_splits prod.splits sum.splits list.splits
      dest!: mergeVideoAudio_browser)

lemma closeBrowser_effect:
  "closeBrowser e w = (ok, w') \<Longrightarrow>
   closeCalls w' = Suc (closeCalls w) \<and> ok = closeOk e (closeCalls w) \<and>
   browser w' = (if ok then Closed else browser w)"
  by (auto simp: closeBrowser_def Let_def)

lemma extractWithPuppeteer_not_launched:
  "stepFails e Launch \<Longrightarrow> extractWithPuppeteer e url w = (Inl (StepFailed Launch), w)"
  by (simp add: extractWithPuppeteer_def)

lemma extractWithPuppeteer_closes:
  assumes "\<not> stepFails e Launch" "extractWithPuppeteer e url w = (res, w')"
  shows "closeCalls w < closeCalls w' \<and>
         (browser w' = Closed \<or> (\<forall>k. closeCalls w \<le> k \<and> k < closeCalls w' \<longrightarrow> \<not> closeOk e k))"
proof -
  let ?w1 = "w\<lparr>browser := Open\<rparr>"
  obtain ok w2 where c1: "closeBrowser e ?w1 = (ok, w2)" by (cases "closeBrowser e ?w1")
  from closeBrowser_effect [OF c1]
  have w2: "closeCalls w2 = Suc (closeCalls w)" "ok = closeOk e (closeCalls w)"
    "browser w2 = (if ok then Closed else Open)" by simp_all
  show ?thesis
  proof (cases "firstFailure (stepFails e)
      [NewPage, SetViewport, SetUserAgent, SetRequestInterception, Goto, Evaluate]")
    case (Some s)
    with assms c1 have "w' = w2"
      by (simp add: extractWithPuppeteer_def Let_def)
    with w2 show ?thesis
      by (auto simp: le_less_Suc_eq)
  next
    case None
    show ?thesis
    proof (cases ok)
      case True
      with assms c1 None have "processCapture e url w2 = (res, w')"
        by (simp add: extractWithPuppeteer_def Let_def)
      from processCapture_browser [OF this] w2 True show ?thesis by simp
    next
      case False
      obtain ok' w3 where c2: "closeBrowser e w2 = (ok', w3)" by (cases "closeBrowser e w2")
      from closeBrowser_effect [OF c2] w2 False
      have w3: "closeCalls w3 = Suc (Suc (closeCalls w))" "ok' = closeOk e (Suc (closeCalls w))"
        "browser w3 = (if ok' then Closed else Open)" by simp_all
      from assms c1 c2 None False have "w' = w3"
        by (simp add: extractWithPuppeteer_def Let_def)
      with w3 w2 False show ?thesis
        by (auto simp: less_Suc_eq)
    qed
  qed
qed

lemma mergeVideoAudio_ffmpeg_failure_cleans:
  assumes "pathJoin (tempDir e) (md5hex e u @ ''_merged.mp4'') \<notin> files w"
    "fetchOk e v" "fetchOk e a" "\<not> ffmpegOk e"
    "mergeVideoAudio e v a u w = (res, w')"
  shows "res = Inl FfmpegFailed \<and>
         pathJoin (tempDir e) (md5hex e u @ ''_video.mp4'') \<notin> files w' \<and>
         pathJoin (tempDir e) (md5hex e u @ ''_audio.mp4'') \<notin> files w' \<and>
         pathJoin (tempDir e) (md5hex e u @ ''_merged.mp4'') \<notin> files w'"
  using assms by (auto simp: mergeVideoAudio_def downloadFile_def Let_def)

lemma mergeVideoAudio_download_failure_leaves:
  assumes "pathJoin (tempDir e) (md5hex e u @ ''_merged.mp4'') \<notin> files w"
    "fetchOk e v" "\<not> fetchOk e a"
    "mergeVideoAudio e v a u w = (res, w')"
  shows "res = Inl (DownloadFailed a) \<and>
         pathJoin (tempDir e) (md5hex e u @ ''_video.mp4'') \<in> files w' \<and>
         pathJoin (tempDir e) (md5hex e u @ ''_audio.mp4'') \<in> files w'"
  using assms by (auto simp: mergeVideoAudio_def downloadFile_def Let_def)

lemma processCapture_degrades:
  assumes "fold onResponse (responses e) ([], [], None) = (videoUrls, firstAudio # audioUrls, thumbnail)"
    "videoUrls \<noteq> []"
    "mergeVideoAudio e (cleanUrlOf (bestVideoUrl videoUrls)) (cleanUrlOf firstAudio) url w = (Inl err, w')"
  shows "processCapture e url w =
           (Inr (Some (videoRecord e (cleanUrlOf (bestVideoUrl videoUrls)) thumbnail)), w')"
  using assms by (simp add: processCapture_def Let_def)

section \<open>Claims\<close>

text \<open>
  C1, as the code has it, for candidates whose area is at most \<open>2^53\<close> in magnitude (up to
  there the product of two doubles is the exact one). A candidate counts when it has a
  \<^verbatim>\<open>src\<close> and its area is positive. In \<^verbatim>\<open>extractFromRequireData\<close> and \<^verbatim>\<open>parseSharedData\<close>:
  when some candidate counts, the first candidate of maximum area among those that have
  a \<^verbatim>\<open>src\<close> is taken (every earlier one is strictly smaller, every later one is at most
  as large); when none counts, the \<^verbatim>\<open>src\<close> of the last entry is taken, or the URL is left
  as it was when that entry has none. In the scan of the handler, for the first pattern
  of \<^verbatim>\<open>display_resources\<close> that matches: when the bracket has entries with both
  dimensions and one of them has a positive area, the first entry of maximum area is
  taken, unescaped and decoded; when it has such entries and none of positive area,
  nothing is taken and the next pattern is tried; when it has no entry with both
  dimensions, the last \<^verbatim>\<open>src\<close> in the bracket is taken, whatever the order of sizes, and
  the next pattern is tried only when the bracket has no \<^verbatim>\<open>src\<close> at all.
\<close>

theorem quality_selector_first_maximum:
  assumes "\<forall>r\<in>set rs. \<bar>area r\<bar> \<le> safeArea"
    and "\<forall>(u, w, h)\<in>set ms. u \<noteq> [] \<and> int (w * h) \<le> safeArea"
  shows
  "((\<exists>r\<in>set rs. truthyStr (src r) \<and> 0 < area r) \<longrightarrow>
      (\<exists>before x after. rs = before @ x # after \<and> pickDisplayResource rs = src x \<and>
         truthyStr (src x) \<and> 0 < area x \<and>
         (\<forall>r\<in>set before. truthyStr (src r) \<longrightarrow> area r < area x) \<and>
         (\<forall>r\<in>set after. truthyStr (src r) \<longrightarrow> area r \<le> area x))) \<and>
   ((\<forall>r\<in>set rs. \<not> (truthyStr (src r) \<and> 0 < area r)) \<longrightarrow>
      pickDisplayResource rs =
        (if rs \<noteq> [] \<and> truthyStr (src (last rs)) then src (last rs) else None)) \<and>
   ((\<exists>(u, w, h)\<in>set ms. 0 < w * h) \<longrightarrow>
      (\<exists>before u w h after. ms = before @ (u, w, h) # after \<and>
         bestUrlLoop ms 0 None = Some u \<and>
         scanDisplayResources ((ms, us) # others) = Some (decodeUrlEntities (unescapeUrl u)) \<and>
         0 < w * h \<and>
         (\<forall>(u', w', h')\<in>set before. w' * h' < w * h) \<and>
         (\<forall>(u', w', h')\<in>set after. w' * h' \<le> w * h))) \<and>
   (ms \<noteq> [] \<and> (\<forall>(u, w, h)\<in>set ms. \<not> 0 < w * h) \<longrightarrow>
      bestUrlLoop ms 0 None = None \<and>
      scanDisplayResources ((ms, us) # others) = scanDisplayResources others) \<and>
   scanDisplayResources (([], us) # others) =
     (if us \<noteq> [] then Some (decodeUrlEntities (unescapeUrl (last us)))
      else scanDisplayResources others)"
proof (intro conjI impI)
  assume "\<exists>r\<in>set rs. truthyStr (src r) \<and> 0 < area r"
  from bestResourceLoop_first_max [OF order_refl this, of None] obtain before x after
    where d: "rs = before @ x # after" "bestResourceLoop rs 0 None = Some x"
      "truthyStr (src x)" "0 < area x"
      "\<forall>r\<in>set before. truthyStr (src r) \<longrightarrow> area r < area x"
      "\<forall>r\<in>set after. truthyStr (src r) \<longrightarrow> area r \<le> area x"
    by blast
  then have "pickDisplayResource rs = src x"
    by (simp add: pickDisplayResource_def)
  with d show "\<exists>before x after. rs = before @ x # after \<and> pickDisplayResource rs = src x \<and>
         truthyStr (src x) \<and> 0 < area x \<and>
         (\<forall>r\<in>set before. truthyStr (src r) \<longrightarrow> area r < area x) \<and>
         (\<forall>r\<in>set after. truthyStr (src r) \<longrightarrow> area r \<le> area x)"
    by blast
next
  assume "\<forall>r\<in>set rs. \<not> (truthyStr (src r) \<and> 0 < area r)"
  then have "bestResourceLoop rs 0 None = None"
    by (intro bestResourceLoop_none) simp_all
  then show "pickDisplayResource rs =
      (if rs \<noteq> [] \<and> truthyStr (src (last rs)) then src (last rs) else None)"
    by (simp add: pickDisplayResource_def)
next
  assume "\<exists>(u, w, h)\<in>set ms. 0 < w * h"
  from bestUrlLoop_first_max [OF this, of None] obtain before u w h after
    where d: "ms = before @ (u, w, h) # after" "bestUrlLoop ms 0 None = Some u" "0 < w * h"
      "\<forall>(u', w', h')\<in>set before. w' * h' < w * h"
      "\<forall>(u', w', h')\<in>set after. w' * h' \<le> w * h"
    by blast
  from d(1) assms(2) have "u \<noteq> []" "ms \<noteq> []"
    by auto
  with d(2) have "scanDisplayResources ((ms, us) # others)
      = Some (decodeUrlEntities (unescapeUrl u))"
    by simp
  with d show "\<exists>before u w h after. ms = before @ (u, w, h) # after \<and>
         bestUrlLoop ms 0 None = Some u \<and>
         scanDisplayResources ((ms, us) # others) = Some (decodeUrlEntities (unescapeUrl u)) \<and>
         0 < w * h \<and>
         (\<forall>(u', w', h')\<in>set before. w' * h' < w * h) \<and>
         (\<forall>(u', w', h')\<in>set after. w' * h' \<le> w * h)"
    by blast
next
  assume a: "ms \<noteq> [] \<and> (\<forall>(u, w, h)\<in>set ms. \<not> 0 < w * h)"
  then show n: "bestUrlLoop ms 0 None = None"
    by (intro bestUrlLoop_none) simp
  with a show "scanDisplayResources ((ms, us) # others) = scanDisplayResources others"
    by simp
next
  show "scanDisplayResources (([], us) # others) =
     (if us \<noteq> [] then Some (decodeUrlEntities (unescapeUrl (last us)))
      else scanDisplayResources others)"
    by simp
qed

theorem quality_selector_first_maximum_witness:
  "list_all (\<lambda>r. \<bar>area r\<bar> \<le> safeArea) exampleResources \<and>
   list_all (\<lambda>(u, w, h). u \<noteq> [] \<and> int (w * h) \<le> safeArea) exampleMatches \<and>
   pickDisplayResource exampleResources = Some ''b'' \<and>
   scanDisplayResources [(exampleMatches, [''c'', ''b''])] = Some ''b'' \<and>
   scanDisplayResources [([], [''c'', ''b''])] = Some ''b''"
  using quality_selector_first_maximum
          [of exampleResources exampleMatches "[''c'', ''b'']" "[]"] resourceUrl_b
  by (simp add: exampleResources_def exampleMatches_def pickDisplayResource_def truthyStr_def
      truthyNum_def area_def safeArea_def)

text \<open>
  C1 as stated fails where the maximum area is 0. Two candidates without dimensions both
  have area 0; the specification's selector returns the first, the code returns the
  \<^verbatim>\<open>src\<close> of the last.
\<close>

theorem quality_selector_zero_area_counterexample:
  "map_option src
     (spec_selectMaxArea
        [\<lparr>src = Some ''a'', config_width = None, config_height = None\<rparr>,
         \<lparr>src = Some ''b'', config_width = None, config_height = None\<rparr>]) = Some (Some ''a'') \<and>
   pickDisplayResource
     [\<lparr>src = Some ''a'', config_width = None, config_height = None\<rparr>,
      \<lparr>src = Some ''b'', config_width = None, config_height = None\<rparr>] = Some ''b''"
  by (simp add: pickDisplayResource_def truthyStr_def truthyNum_def area_def)

text \<open>
  C2, as the code has it. \<^verbatim>\<open>decodeUrlEntities\<close>, the decoder that every URL passes through,
  repeats its pass of nine replacements until a pass changes nothing; it has no bound on
  the number of passes and needs none, since a pass that changes the string shortens it.
  It always returns (the function is total) and it is idempotent.
  \<^verbatim>\<open>decodeHtmlEntities\<close>, the decoder of captions, is one pass and is not idempotent (see
  the counterexample).
\<close>

theorem decodeUrlEntities_idempotent:
  "decodeUrlEntities (decodeUrlEntities s) = decodeUrlEntities s"
  by (rule decodeUrlEntities_idem)

theorem decodeUrlEntities_idempotent_witness:
  "decodeUrlEntities (decodeUrlEntities ''x&amp;AMP;lt;'')
     = decodeUrlEntities ''x&amp;AMP;lt;'' \<and>
   decodeUrlEntities ''x&amp;AMP;lt;'' = ''x<''"
proof
  show "decodeUrlEntities (decodeUrlEntities ''x&amp;AMP;lt;'')
     = decodeUrlEntities ''x&amp;AMP;lt;''"
    by (rule decodeUrlEntities_idempotent)
  show "decodeUrlEntities ''x&amp;AMP;lt;'' = ''x<''"
    by code_simp
qed

text \<open>
  C2 as stated fails on \<^verbatim>\<open>decodeHtmlEntities\<close>: the caption \<^verbatim>\<open>&amp;amp;\<close> is decoded to
  \<^verbatim>\<open>&amp;\<close>, and a second application gives \<^verbatim>\<open>&\<close>.
\<close>

theorem decodeHtmlEntities_not_idempotent:
  "decodeHtmlEntities (decodeHtmlEntities ''&amp;amp;'') \<noteq> decodeHtmlEntities ''&amp;amp;''"
  by (simp add: decodeHtmlEntities_amp_amp decodeHtmlEntities_amp)

text \<open>
  C3. Removing the size restrictions is idempotent: applying the block of replacements to
  its own result changes nothing, for every URL.
\<close>

theorem stripSizeConstraints_idempotent:
  "stripSizeConstraints (stripSizeConstraints u) = stripSizeConstraints u"
  by (rule stripSizeConstraints_idem)

theorem stripSizeConstraints_idempotent_witness:
  "stripSizeConstraints
     (stripSizeConstraints ''//c/s6x4_sh-jpg_e/a.jpg?stp=d&x=2&ccb=7'')
   = stripSizeConstraints ''//c/s6x4_sh-jpg_e/a.jpg?stp=d&x=2&ccb=7'' \<and>
   stripSizeConstraints ''//c/s6x4_sh-jpg_e/a.jpg?stp=d&x=2&ccb=7''
   = ''//c&x=2''"
proof
  show "stripSizeConstraints
     (stripSizeConstraints ''//c/s6x4_sh-jpg_e/a.jpg?stp=d&x=2&ccb=7'')
   = stripSizeConstraints ''//c/s6x4_sh-jpg_e/a.jpg?stp=d&x=2&ccb=7''"
    by (rule stripSizeConstraints_idempotent)
  show "stripSizeConstraints ''//c/s6x4_sh-jpg_e/a.jpg?stp=d&x=2&ccb=7''
   = ''//c&x=2''"
    by code_simp
qed

text \<open>
  C4. When the output file for the hash of the post URL is already in the temp
  directory, \<^verbatim>\<open>mergeVideoAudio\<close> returns its path and leaves the world as it was: no
  download is started and no file is touched. The path depends on the post URL only, not
  on the two stream URLs.
\<close>

theorem muxer_cache_hit_returns_without_download:
  "pathJoin (tempDir e) (md5hex e instagramUrl @ ''_merged.mp4'') \<in> files w \<Longrightarrow>
   mergeVideoAudio e videoUrl audioUrl instagramUrl w =
     (Inr (pathJoin (tempDir e) (md5hex e instagramUrl @ ''_merged.mp4'')), w)"
  by (simp add: mergeVideoAudio_def Let_def)

theorem muxer_cache_hit_returns_without_download_witness:
  "''/t/h_merged.mp4'' \<in> files cachedWorld \<and>
   mergeVideoAudio audioFails ''c/v.mp4'' ''c/audio.mp4'' ''u'' cachedWorld =
     (Inr ''/t/h_merged.mp4'', cachedWorld) \<and>
   downloads cachedWorld = []"
  using muxer_cache_hit_returns_without_download
          [of audioFails "''u''" cachedWorld "''c/v.mp4''" "''c/audio.mp4''"]
  by (simp add: cachedWorld_def emptyWorld_def audioFails_def pathJoin_def)

text \<open>
  C5. For a URL that contains \<^verbatim>\<open>/reel/\<close> or \<^verbatim>\<open>/tv/\<close> and a textual result of type image,
  the handler calls the browser fallback, once and with that URL; when the fallback
  returns a record of type video with a non-empty \<^verbatim>\<open>mediaUrl\<close>, that record replaces the
  textual one, and the response carries it with type video (its two URLs decoded once
  more and the timestamp set to the time of the response, as for every response).
\<close>

theorem browser_fallback_replaces_image_result:
  "isVideoUrl url \<Longrightarrow> postData = Some t \<Longrightarrow> mediaType t = Image \<Longrightarrow>
   snd (browserOverride fallback url postData) = [url] \<and>
   (\<forall>p. fallback url = Inr (Some p) \<and> mediaUrl p \<noteq> [] \<and> mediaType p = Video \<longrightarrow>
      fst (browserOverride fallback url postData) = Some p \<and>
      respond now (fst (browserOverride fallback url postData)) =
        Ok200 (p\<lparr>mediaUrl := decodeUrlEntities (mediaUrl p),
                  thumbnailUrl := decodeUrlEntities (thumbnailUrl p),
                  timestamp := Some now\<rparr>) \<and>
      mediaType (p\<lparr>mediaUrl := decodeUrlEntities (mediaUrl p),
                  thumbnailUrl := decodeUrlEntities (thumbnailUrl p),
                  timestamp := Some now\<rparr>) = Video)"
  by (auto simp: browserOverride_def respond_def hasMedia_def split: sum.splits option.splits)

theorem browser_fallback_replaces_image_result_witness:
  "isVideoUrl ''https://www.instagram.com/reel/abc/'' \<and> mediaType imageRecord = Image \<and>
   browserOverride (\<lambda>u. Inr (Some foundRecord)) ''https://www.instagram.com/reel/abc/''
       (Some imageRecord) =
     (Some foundRecord, [''https://www.instagram.com/reel/abc/'']) \<and>
   respond ''now'' (Some foundRecord) = Ok200 (foundRecord\<lparr>timestamp := Some ''now''\<rparr>)"
proof -
  have u: "isVideoUrl ''https://www.instagram.com/reel/abc/''"
    by code_simp
  have d: "decodeUrlEntities ''u'' = ''u''"
    by code_simp
  have f: "mediaUrl foundRecord \<noteq> []" "mediaType foundRecord = Video"
    "mediaType imageRecord = Image"
    by (simp_all add: foundRecord_def imageRecord_def)
  show ?thesis
    using browser_fallback_replaces_image_result
            [OF u refl f(3), of "\<lambda>u. Inr (Some foundRecord)" "''now''"] u d f
    by (auto simp: prod_eq_iff foundRecord_def)
qed

text \<open>
  C6, at an input where the code does not do what the claim says. The video stream is
  downloaded, the download of the audio stream fails: \<^verbatim>\<open>mergeVideoAudio\<close> rejects from its
  outer \<^verbatim>\<open>catch\<close> and deletes nothing, so both temp files stay; the fallback still returns
  the video-only record with the cleaned video URL.
\<close>

theorem muxer_download_failure_leaves_temp_files:
  "fst (extractWithPuppeteer audioFails ''u'' emptyWorld) =
     Inr (Some \<lparr>mediaUrl = ''c/v.mp4'', thumbnailUrl = [], caption = ''hi'', author = ''me'',
                mediaType = Video, timestamp = None\<rparr>) \<and>
   files (snd (extractWithPuppeteer audioFails ''u'' emptyWorld)) =
     {''/t/h_video.mp4'', ''/t/h_audio.mp4''} \<and>
   fst (mergeVideoAudio audioFails ''c/v.mp4'' ''c/audio.mp4'' ''u'' emptyWorld) =
     Inl (DownloadFailed ''c/audio.mp4'')"
  by code_simp

text \<open>
  C7, as the code has it. The candidates of a script are the matches of
  \<^verbatim>\<open>\{[^{}]*(?:\{[^{}]*\}[^{}]*)*\}\<close>, and only they are given to \<^verbatim>\<open>JSON.parse\<close>. A candidate
  that \<^verbatim>\<open>JSON.parse\<close> rejects, or that gives no \<^verbatim>\<open>mediaUrl\<close>, is skipped, and so is a script
  all of whose candidates are such: when the scripts in front that carry a marker have
  only such candidates, and a script with a marker has such candidates followed by a
  candidate that parses to an object from which \<^verbatim>\<open>extractFromRequireData\<close> gets a record
  with a \<^verbatim>\<open>mediaUrl\<close>, the strategies behind the inline scan end with that record, whatever
  the later candidates, scripts and strategies are. When every candidate of every script
  with a marker is rejected by \<^verbatim>\<open>JSON.parse\<close>, the scan leaves \<^verbatim>\<open>postData\<close> as it was and the
  JSON-LD block, the sharedData block and the meta tags are tried as without the scan.
\<close>

theorem script_scan_skips_malformed_fragment:
  "(\<not> hasMedia postData \<and>
    scriptBodies html = before @ scriptContent # after \<and>
    (\<forall>s\<in>set before. includes_str s ''video_url'' \<or> includes_str s ''display_url'' \<longrightarrow>
       (\<forall>c\<in>set (jsonCandidates s). \<forall>j. parse c = Some j \<longrightarrow> \<not> hasMedia (extractData j))) \<and>
    (includes_str scriptContent ''video_url'' \<or> includes_str scriptContent ''display_url'') \<and>
    jsonCandidates scriptContent = bad @ good # rest \<and>
    (\<forall>c\<in>set bad. \<forall>j. parse c = Some j \<longrightarrow> \<not> hasMedia (extractData j)) \<and>
    parse good = Some d \<and> extractData d = Some r \<and> mediaUrl r \<noteq> [] \<longrightarrow>
    laterStrategies parse extractData jsonLdBlock sharedDataBlock parseMetaTags html postData
      = Some r) \<and>
   (\<not> hasMedia postData \<and>
    (\<forall>s\<in>set (scriptBodies html).
       includes_str s ''video_url'' \<or> includes_str s ''display_url'' \<longrightarrow>
       (\<forall>c\<in>set (jsonCandidates s). parse c = None)) \<longrightarrow>
    laterStrategies parse extractData jsonLdBlock sharedDataBlock parseMetaTags html postData =
      (let pd3 = jsonLdBlock html postData;
           pd4 = (if hasMedia pd3 then pd3 else sharedDataBlock html pd3)
       in if hasMedia pd4 then pd4 else parseMetaTags html))"
proof (intro conjI impI)
  assume a: "\<not> hasMedia postData \<and>
    scriptBodies html = before @ scriptContent # after \<and>
    (\<forall>s\<in>set before. includes_str s ''video_url'' \<or> includes_str s ''display_url'' \<longrightarrow>
       (\<forall>c\<in>set (jsonCandidates s). \<forall>j. parse c = Some j \<longrightarrow> \<not> hasMedia (extractData j))) \<and>
    (includes_str scriptContent ''video_url'' \<or> includes_str scriptContent ''display_url'') \<and>
    jsonCandidates scriptContent = bad @ good # rest \<and>
    (\<forall>c\<in>set bad. \<forall>j. parse c = Some j \<longrightarrow> \<not> hasMedia (extractData j)) \<and>
    parse good = Some d \<and> extractData d = Some r \<and> mediaUrl r \<noteq> []"
  then have "scanScripts parse extractData (before @ scriptContent # after) postData = Some r"
    by (intro scanScripts_finds [where bad = bad and good = good and rest = rest and d = d])
       simp_all
  with a have "scanScripts parse extractData (scriptBodies html) postData = Some r"
    by simp
  from laterStrategies_after_scan [OF _ this] a
  show "laterStrategies parse extractData jsonLdBlock sharedDataBlock parseMetaTags html postData
      = Some r"
    by (simp add: hasMedia_def)
next
  assume a: "\<not> hasMedia postData \<and>
    (\<forall>s\<in>set (scriptBodies html).
       includes_str s ''video_url'' \<or> includes_str s ''display_url'' \<longrightarrow>
       (\<forall>c\<in>set (jsonCandidates s). parse c = None))"
  then have "scanScripts parse extractData (scriptBodies html) postData = postData"
    by (intro scanScripts_malformed) simp
  from laterStrategies_after_scan [OF _ this] a
  show "laterStrategies parse extractData jsonLdBlock sharedDataBlock parseMetaTags html postData =
      (let pd3 = jsonLdBlock html postData;
           pd4 = (if hasMedia pd3 then pd3 else sharedDataBlock html pd3)
       in if hasMedia pd4 then pd4 else parseMetaTags html)"
    by simp
qed

theorem script_scan_skips_malformed_fragment_witness:
  "scriptBodies twoScriptPage = [''{display_url}'', goodScript] \<and>
   jsonCandidates ''{display_url}'' = [''{display_url}''] \<and>
   parseGoodOnly ''{display_url}'' = None \<and>
   jsonCandidates goodScript = [''{video_url}'', goodFragment] \<and>
   parseGoodOnly ''{video_url}'' = None \<and>
   parseGoodOnly goodFragment = Some True \<and>
   laterStrategies parseGoodOnly (\<lambda>d. Some foundRecord) (\<lambda>h p. p) (\<lambda>h p. p) (\<lambda>h. None)
     twoScriptPage None = Some foundRecord \<and>
   scriptBodies metaPage = [''{display_url}''] \<and>
   laterStrategies parseGoodOnly (\<lambda>d. Some foundRecord) (\<lambda>h p. p) (\<lambda>h p. p)
     (\<lambda>h. Some imageRecord) metaPage None = Some imageRecord"
proof -
  have g: "parseGoodOnly goodFragment = Some True"
    by (simp add: parseGoodOnly_def)
  have "laterStrategies parseGoodOnly (\<lambda>d. Some foundRecord) (\<lambda>h p. p) (\<lambda>h p. p) (\<lambda>h. None)
          twoScriptPage None = Some foundRecord"
    using script_scan_skips_malformed_fragment
            [where postData = None and html = twoScriptPage and before = "[''{display_url}'']"
               and scriptContent = goodScript and after = "[]"
               and parse = parseGoodOnly and extractData = "\<lambda>d. Some foundRecord"
               and bad = "[''{video_url}'']" and good = goodFragment and rest = "[]"
               and d = True and r = foundRecord
               and jsonLdBlock = "\<lambda>h p. p" and sharedDataBlock = "\<lambda>h p. p"
               and parseMetaTags = "\<lambda>h. None"]
      twoScriptPage_bodies scriptPage_marker scriptPage_candidates malformed_candidates
      parseGoodOnly_bad parseGoodOnly_bad2 g
    by (simp add: hasMedia_def foundRecord_def)
  moreover
  have "laterStrategies parseGoodOnly (\<lambda>d. Some foundRecord) (\<lambda>h p. p) (\<lambda>h p. p)
          (\<lambda>h. Some imageRecord) metaPage None = Some imageRecord"
    using script_scan_skips_malformed_fragment
            [where postData = None and html = metaPage
               and parse = parseGoodOnly and extractData = "\<lambda>d. Some foundRecord"
               and jsonLdBlock = "\<lambda>h p. p" and sharedDataBlock = "\<lambda>h p. p"
               and parseMetaTags = "\<lambda>h. Some imageRecord"]
      metaPage_bodies malformed_candidates parseGoodOnly_bad2
    by (simp add: hasMedia_def)
  ultimately show ?thesis
    using twoScriptPage_bodies scriptPage_candidates metaPage_bodies malformed_candidates
      parseGoodOnly_bad parseGoodOnly_bad2 g
    by simp
qed

text \<open>
  C7 as stated fails for a well-formed fragment that the pattern of the candidates does
  not match. The object \<^verbatim>\<open>{"video_url": "u","x":{"y":{}}}\<close> stands in a script behind a
  fragment that is not JSON; \<^verbatim>\<open>JSON.parse\<close> accepts it and \<^verbatim>\<open>extractFromRequireData\<close> finds
  a record in it, but its braces are nested three deep, so the candidates of the script
  are the malformed fragment and the part \<^verbatim>\<open>{"y":{}}\<close>, which has no media field. The inline
  scan finds nothing on this page (there is a blank behind the colon), the script scan
  finds nothing, and with no JSON-LD block, no sharedData block and no meta tag the
  handler has no record.
\<close>

theorem script_scan_misses_deep_fragment:
  "parseDeep ''{video_url}'' = None \<and>
   parseDeep deepFragment = Some True \<and>
   extractDeep True = Some foundRecord \<and>
   hasMedia (Some foundRecord) \<and>
   scriptBodies deepPage = [deepScript] \<and>
   includes_str deepScript ''video_url'' \<and>
   jsonCandidates deepScript = [''{video_url}'', innerFragment] \<and>
   inlineFieldScan (\<lambda>ms. []) [] deepPage = Inr None \<and>
   laterStrategies parseDeep extractDeep (\<lambda>h p. p) (\<lambda>h p. p) (\<lambda>h. None) deepPage None = None"
proof -
  have "inlineFieldScan (\<lambda>ms. []) [] deepPage = Inr None"
    by (simp add: inlineFieldScan_def Let_def deepPage_inline)
  moreover
  have "laterStrategies parseDeep extractDeep (\<lambda>h p. p) (\<lambda>h p. p) (\<lambda>h. None) deepPage None
      = None"
    by (simp add: laterStrategies_def Let_def deepPage_bodies deepPage_marker
        deepPage_candidates parseDeep_values extractDeep_def hasMedia_def)
  ultimately show ?thesis
    by (simp add: deepPage_bodies deepPage_marker deepPage_candidates parseDeep_values
        extractDeep_def hasMedia_def foundRecord_def)
qed

text \<open>
  C8, at an input where the code does not do what the claim says. The page has a video
  field, a display field and \<^verbatim>\<open>"taken_at_timestamp":99999999999999\<close>, a number of seconds
  beyond the dates of JavaScript. The inline scan chooses the video field, and then
  \<^verbatim>\<open>toISOString\<close> throws RangeError while the record is built (line 262, outside every
  inner \<^verbatim>\<open>try\<close>): no record of type video is returned and the handler ends in its outer
  \<^verbatim>\<open>catch\<close>. With a timestamp that is a date, or none, the record is of type video with
  the unescaped and decoded video field as its \<^verbatim>\<open>mediaUrl\<close> (lemma
  \<open>inlineFieldScan_video\<close>).
\<close>

theorem inline_scan_far_future_timestamp_throws:
  "videoUrlMatch farFuturePage = Some ''v?stp=1'' \<and>
   displayUrlMatch farFuturePage = Some ''d'' \<and>
   timestampMatch farFuturePage = Some ''99999999999999'' \<and>
   inlineFieldScan (\<lambda>ms. []) [] farFuturePage = Inl RangeError"
  using inlineFieldScan_range_error [OF farFuturePage_video farFuturePage_timestamp]
  by (simp add: farFuturePage_video farFuturePage_display farFuturePage_timestamp
      parseInt_far_future)

text \<open>
  C9, as the code has it. When \<^verbatim>\<open>launch\<close> throws there is no session. Otherwise
  \<^verbatim>\<open>browser.close()\<close> has been called before \<^verbatim>\<open>extractWithPuppeteer\<close> returns or throws,
  whatever call has thrown, and the session is closed unless every one of these calls of
  \<^verbatim>\<open>close\<close> has itself thrown.
\<close>

theorem browser_session_closed_on_every_path:
  "browser w = NotLaunched \<Longrightarrow> extractWithPuppeteer e url w = (res, w') \<Longrightarrow>
   (stepFails e Launch \<longrightarrow> browser w' = NotLaunched \<and> closeCalls w' = closeCalls w) \<and>
   (\<not> stepFails e Launch \<longrightarrow>
      closeCalls w < closeCalls w' \<and>
      (browser w' = Closed \<or>
       (\<forall>k. closeCalls w \<le> k \<and> k < closeCalls w' \<longrightarrow> \<not> closeOk e k)))"
  using extractWithPuppeteer_closes [of e url w res w']
  by (auto simp: extractWithPuppeteer_not_launched)

theorem browser_session_closed_on_every_path_witness:
  "browser emptyWorld = NotLaunched \<and>
   extractWithPuppeteer gotoFails ''u'' emptyWorld =
     (Inl (StepFailed Goto), emptyWorld\<lparr>browser := Closed, closeCalls := 1\<rparr>) \<and>
   closeOk gotoFails 0"
proof -
  have r: "extractWithPuppeteer gotoFails ''u'' emptyWorld =
      (Inl (StepFailed Goto), emptyWorld\<lparr>browser := Closed, closeCalls := 1\<rparr>)"
    by (simp add: extractWithPuppeteer_def gotoFails_def audioFails_def emptyWorld_def
        closeBrowser_def Let_def)
  have n: "browser emptyWorld = NotLaunched"
    by (simp add: emptyWorld_def)
  from browser_session_closed_on_every_path [OF n r]
  have "browser (emptyWorld\<lparr>browser := Closed, closeCalls := 1\<rparr>) = Closed \<or>
        \<not> closeOk gotoFails 0"
    by (auto simp: gotoFails_def audioFails_def emptyWorld_def)
  with r n show ?thesis
    by (simp add: gotoFails_def audioFails_def)
qed

text \<open>
  C9 as stated fails where \<^verbatim>\<open>close\<close> itself throws. Every call of the browser succeeds but
  \<^verbatim>\<open>close\<close>: the call of line 912 throws, the call in the \<^verbatim>\<open>catch\<close> throws again, and the
  function throws with the session still open.
\<close>

theorem browser_session_left_open_counterexample:
  "browser emptyWorld = NotLaunched \<and>
   extractWithPuppeteer closeFails ''u'' emptyWorld =
     (Inl CloseFailed, emptyWorld\<lparr>browser := Open, closeCalls := 2\<rparr>)"
  by (simp add: extractWithPuppeteer_def closeFails_def audioFails_def emptyWorld_def
      closeBrowser_def Let_def)

text \<open>
  C10. For a URL with at most one \<^verbatim>\<open>?\<close>, \<^verbatim>\<open>cleanUrl\<close> removes exactly the query parameters
  whose text starts with \<^verbatim>\<open>bytestart\<close> or \<^verbatim>\<open>byteend\<close> and keeps the others in their order;
  a URL with no \<^verbatim>\<open>?\<close> is returned unchanged, and a null or empty input is returned as it
  is. A URL with exactly one \<^verbatim>\<open>?\<close> is a base without \<^verbatim>\<open>?\<close>, the \<^verbatim>\<open>?\<close>, and parameters
  joined by \<^verbatim>\<open>&\<close> (lemma \<open>url_with_one_question_mark\<close>). When every parameter is
  removed the \<^verbatim>\<open>?\<close> stays at the end.
\<close>

theorem cleanUrl_removes_byte_range_params:
  "cleanUrl None = None \<and>
   cleanUrl (Some []) = Some [] \<and>
   (CHR ''?'' \<notin> set u \<longrightarrow> cleanUrl (Some u) = Some u) \<and>
   (CHR ''?'' \<notin> set b \<and> (\<forall>p\<in>set ps. CHR ''?'' \<notin> set p \<and> CHR ''&'' \<notin> set p) \<longrightarrow>
      cleanUrl (Some (b @ ''?'' @ join_with CHR ''&'' ps)) =
      Some (b @ ''?'' @ join_with CHR ''&'' (filter keepParam ps)))"
proof -
  have "cleanUrl (Some u) = Some u" if "CHR ''?'' \<notin> set u"
    using that by (simp add: cleanUrl_def split_on_no_sep)
  then show ?thesis
    using cleanUrl_query [of b ps] by (simp add: cleanUrl_def)
qed

theorem cleanUrl_removes_byte_range_params_witness:
  "cleanUrl (Some ''http://c/v.mp4'') = Some ''http://c/v.mp4'' \<and>
   cleanUrl (Some ''http://c/v.mp4?a=1&bytestart=0&byteend=99&b=2'') =
     Some ''http://c/v.mp4?a=1&b=2''"
  using cleanUrl_removes_byte_range_params
          [of "''http://c/v.mp4''" "''http://c/v.mp4''"
              "[''a=1'', ''bytestart=0'', ''byteend=99'', ''b=2'']"]
  by (simp add: keepParam_def)

end
